theory Spec2Isabelle
  imports Main "HOL-Library.Multiset"
begin

section \<open>Calendar.js: the day layout\<close>

subsection \<open>Event objects\<close>

text \<open>
  An event object has the fields \<open>id\<close>, \<open>start\<close> and \<open>end\<close> that the caller
  supplies, and the fields that \<open>layOutDay\<close> attaches to it. The code never assigns the
  first three, so they live in an immutable table from object references to
  \<open>event\<close> records; the attached fields live in a store that is threaded through
  the code. Arrays hold references, so the same object can be reached through the
  argument of \<open>layOutDay\<close> and through the module-level variable \<open>events\<close>.
  Times are integers (minutes or pixel rows), ids are numbers compared with \<open>==\<close>.
  The debug output (lines 81, 85 and 93, \<open>DEBUG_MODE\<close> being false) is left out.
\<close>

type_synonym ref = nat

record event =
  id' :: int
  start :: int
  end' :: int

text \<open>
  \<open>has_registerCollision\<close> tells whether the method \<open>registerCollision\<close> is
  attached to the object (lines 56 to 67); calling it on an object without it throws.
\<close>

record layout =
  left :: int
  top' :: int
  width :: int
  duration :: int
  overlap :: int
  position :: int
  collisions :: "nat list"
  columns :: int
  has_registerCollision :: bool

type_synonym store = "ref \<Rightarrow> layout"

datatype error = ReferenceError | TypeError

text \<open>
  What the module-level name \<open>events\<close> is bound to when \<open>layOutDay\<close> runs:
  nothing, the very array that is passed to \<open>layOutDay\<close> (which is then sorted in
  place under that name too), or some other array.
\<close>

datatype module_events = Undeclared | SameArray | OtherArray "ref list"

subsection \<open>registerCollision (lines 56 to 67)\<close>

definition registerCollision :: "ref \<Rightarrow> nat \<Rightarrow> store \<Rightarrow> error + store" where
  "registerCollision r i h =
     (if \<not> has_registerCollision (h r) then Inl TypeError
      else if i \<in> set (collisions (h r)) then Inr h
      else Inr (h(r := (h r)\<lparr>collisions := collisions (h r) @ [i]\<rparr>)))"

subsection \<open>checkLeft (lines 109 to 122)\<close>

definition collide :: "event \<Rightarrow> event \<Rightarrow> bool" where
  "collide a b = (start a < end' b \<and> end' a > start b)"

definition set_position :: "ref \<Rightarrow> int \<Rightarrow> store \<Rightarrow> store" where
  "set_position r p h = h(r := (h r)\<lparr>position := p\<rparr>)"

text \<open>
  The index at which the scan of \<open>checkLeft\<close> for \<open>ev\<close>, started at \<open>i\<close>,
  leaves the loop: the first index from \<open>i\<close> on whose event has the id of \<open>ev\<close>,
  or the length of the array.
\<close>

definition scan_stop :: "(ref \<Rightarrow> event) \<Rightarrow> ref list \<Rightarrow> ref \<Rightarrow> nat \<Rightarrow> nat" where
  "scan_stop objs G ev i =
     i + length (takeWhile (\<lambda>r. id' (objs r) \<noteq> id' (objs ev)) (drop i G))"

text \<open>
  \<open>checkLeft_from objs G ev index i h\<close> is the loop of \<open>checkLeft(ev, index)\<close> from
  the counter value \<open>i\<close> on, where \<open>G\<close> is the array that the module-level name
  \<open>events\<close> denotes. The value that \<open>checkLeft\<close> returns is read from the store
  afterwards.
\<close>

function checkLeft_from ::
  "(ref \<Rightarrow> event) \<Rightarrow> ref list \<Rightarrow> ref \<Rightarrow> nat \<Rightarrow> nat \<Rightarrow> store \<Rightarrow> error + store" where
  "checkLeft_from objs G ev index i h =
     (if i < length G then
        if id' (objs (G ! i)) = id' (objs ev) then Inr h
        else if collide (objs ev) (objs (G ! i)) then
          (case registerCollision ev i h of
             Inl err \<Rightarrow> Inl err
           | Inr h1 \<Rightarrow>
              (case checkLeft_from objs G (G ! i) i 0 h1 of
                 Inl err \<Rightarrow> Inl err
               | Inr h2 \<Rightarrow>
                  (case registerCollision (G ! i) index
                          (set_position ev (position (h2 (G ! i)) + 1) h2) of
                     Inl err \<Rightarrow> Inl err
                   | Inr h4 \<Rightarrow> checkLeft_from objs G ev index (i + 1) h4)))
        else checkLeft_from objs G ev index (i + 1) h
      else Inr h)"
  by pat_completeness auto


text \<open>
  \<open>checkLeft(ev, index)\<close> itself: its first step reads the module-level name
  \<open>events\<close>, which throws when the name is not declared; it returns
  \<open>event.position\<close>.
\<close>

definition checkLeft ::
  "(ref \<Rightarrow> event) \<Rightarrow> ref list option \<Rightarrow> ref \<Rightarrow> nat \<Rightarrow> store \<Rightarrow> error + (int \<times> store)" where
  "checkLeft objs G ev index h =
     (case G of
        None \<Rightarrow> Inl ReferenceError
      | Some g \<Rightarrow>
         (case checkLeft_from objs g ev index 0 h of
            Inl err \<Rightarrow> Inl err
          | Inr h' \<Rightarrow> Inr (position (h' ev), h')))"

subsection \<open>sortByDuration (lines 277 to 282) and the array sort\<close>

definition sortByDuration :: "event \<Rightarrow> event \<Rightarrow> int" where
  "sortByDuration e1 e2 =
     (let y = end' e1 - start e1; x = end' e2 - start e2
      in if x < y then - 1 else if x > y then 1 else 0)"

text \<open>
  \<open>Array.prototype.sort\<close> with a comparator, as ECMAScript 2019 specifies it: a
  stable sort. It is written here as an insertion sort: an element goes in front of the
  first element it does not compare greater than.
\<close>

fun insert_by :: "('a \<Rightarrow> 'a \<Rightarrow> int) \<Rightarrow> 'a \<Rightarrow> 'a list \<Rightarrow> 'a list" where
  "insert_by cmp x [] = [x]"
| "insert_by cmp x (y # ys) = (if cmp x y \<le> 0 then x # y # ys else y # insert_by cmp x ys)"

fun array_sort :: "('a \<Rightarrow> 'a \<Rightarrow> int) \<Rightarrow> 'a list \<Rightarrow> 'a list" where
  "array_sort cmp [] = []"
| "array_sort cmp (x # xs) = insert_by cmp x (array_sort cmp xs)"

subsection \<open>layOutDay (lines 32 to 97)\<close>

text \<open>A loop whose body can throw: the first error ends it.\<close>

fun for_each :: "'a list \<Rightarrow> ('a \<Rightarrow> store \<Rightarrow> error + store) \<Rightarrow> store \<Rightarrow> error + store" where
  "for_each [] body h = Inr h"
| "for_each (x # xs) body h =
     (case body x h of Inl err \<Rightarrow> Inl err | Inr h' \<Rightarrow> for_each xs body h')"

text \<open>The first loop (lines 33 to 68).\<close>

definition init_layout :: "event \<Rightarrow> layout" where
  "init_layout ev =
     \<lparr>left = 10, top' = start ev, width = 200, duration = end' ev - start ev,
      overlap = 0, position = 0, collisions = [], columns = 1,
      has_registerCollision = True\<rparr>"

definition init_pass :: "(ref \<Rightarrow> event) \<Rightarrow> ref list \<Rightarrow> store \<Rightarrow> store" where
  "init_pass objs events h = fold (\<lambda>r h'. h'(r := init_layout (objs r))) events h"

text \<open>The body of the second loop (lines 70 to 75).\<close>

definition position_step ::
  "(ref \<Rightarrow> event) \<Rightarrow> ref list option \<Rightarrow> ref list \<Rightarrow> nat \<Rightarrow> store \<Rightarrow> error + store" where
  "position_step objs G events e h =
     (case checkLeft objs G (events ! e) e h of
        Inl err \<Rightarrow> Inl err
      | Inr (p, h1) \<Rightarrow>
          (let h2 = set_position (events ! e) p h1
           in Inr (if position (h2 (events ! e)) > 1 \<and>
                      length (collisions (h2 (events ! e))) < 2
                   then set_position (events ! e) 0 h2 else h2)))"

text \<open>
  The body of the inner loop of the third loop (lines 84 to 88), for the collision entry
  \<open>c\<close> of the event object \<open>ev\<close>. An entry that is no index of the array makes
  \<open>events[c]\<close> undefined, and reading its \<open>position\<close> throws.
\<close>

definition columns_step :: "ref list \<Rightarrow> ref \<Rightarrow> nat \<Rightarrow> store \<Rightarrow> error + store" where
  "columns_step events ev c h =
     (if c < length events then
        (let h1 = h(ev := (h ev)\<lparr>columns := max (columns (h ev))
                                              (position (h (events ! c)) + 1)\<rparr>)
         in Inr (h1(events ! c := (h1 (events ! c))\<lparr>columns := columns (h1 ev)\<rparr>)))
      else Inl TypeError)"

text \<open>
  The body of the third loop (lines 76 to 94). The inner loop runs from the last
  collision entry down to the first. \<open>columns\<close> is at least 1 here (the first loop
  sets it to 1 and the third loop only assigns maxima of such values, see
  \<open>geometry_step_positive\<close>), so that \<open>parseInt(600/columns)\<close> is the integer
  quotient.
\<close>

definition geometry_step :: "ref list \<Rightarrow> nat \<Rightarrow> store \<Rightarrow> error + store" where
  "geometry_step events e h =
     (case for_each (rev (collisions (h (events ! e)))) (columns_step events (events ! e)) h of
        Inl err \<Rightarrow> Inl err
      | Inr h1 \<Rightarrow>
          (let ev = events ! e;
               h2 = h1(ev := (h1 ev)\<lparr>width := 600 div columns (h1 ev)\<rparr>)
           in Inr (h2(ev := (h2 ev)\<lparr>left := position (h2 ev) * width (h2 ev) + 10\<rparr>))))"

text \<open>
  \<open>layOutDay\<close>: \<open>glob\<close> is the binding of the module-level name \<open>events\<close>,
  \<open>events\<close> the array passed, \<open>h\<close> the store before the call. The result is the
  array returned (the argument, sorted in place) and the store after the call.
\<close>

definition global_array :: "module_events \<Rightarrow> ref list \<Rightarrow> ref list option" where
  "global_array glob events =
     (case glob of Undeclared \<Rightarrow> None | SameArray \<Rightarrow> Some events | OtherArray g \<Rightarrow> Some g)"

definition layOutDay ::
  "(ref \<Rightarrow> event) \<Rightarrow> module_events \<Rightarrow> ref list \<Rightarrow> store \<Rightarrow> error + (ref list \<times> store)" where
  "layOutDay objs glob events h =
     (let h1 = init_pass objs events h;
          sorted = array_sort (\<lambda>a b. sortByDuration (objs a) (objs b)) events;
          G = global_array glob sorted
      in case for_each [0..<length sorted] (position_step objs G sorted) h1 of
           Inl err \<Rightarrow> Inl err
         | Inr h2 \<Rightarrow>
            (case for_each [0..<length sorted] (geometry_step sorted) h2 of
               Inl err \<Rightarrow> Inl err
             | Inr h3 \<Rightarrow> Inr (sorted, h3)))"

subsection \<open>Inputs of the examples\<close>

text \<open>Two fully overlapping events.\<close>

definition scenario2 :: "ref \<Rightarrow> event" where
  "scenario2 r = (if r = 0 then \<lparr>id' = 1, start = 0, end' = 60\<rparr>
                  else \<lparr>id' = 2, start = 0, end' = 60\<rparr>)"

section \<open>Predicates used in the proofs\<close>

text \<open>
  \<open>grows h h'\<close>: from \<open>h\<close> to \<open>h'\<close> only \<open>position\<close> changed and
  \<open>collisions\<close> got longer. \<open>regeom h h'\<close>: only \<open>columns\<close>, \<open>width\<close>
  and \<open>left\<close> changed. The others describe the stores of the second loop, for the
  array \<open>G\<close> that is both scanned and laid out; \<open>P\<close> holds the pairs
  (caller, candidate) of the calls of \<open>checkLeft\<close> that are under way, whose second
  registration is still to come.
\<close>

definition grows :: "store \<Rightarrow> store \<Rightarrow> bool" where
  "grows h h' = (\<forall>r. \<exists>p ys. h' r = (h r)\<lparr>position := p, collisions := collisions (h r) @ ys\<rparr>)"

definition registered :: "ref list \<Rightarrow> store \<Rightarrow> bool" where
  "registered G h = (\<forall>r\<in>set G. has_registerCollision (h r))"

definition sound :: "(ref \<Rightarrow> event) \<Rightarrow> ref list \<Rightarrow> store \<Rightarrow> bool" where
  "sound objs G h = (\<forall>a<length G. \<forall>b\<in>set (collisions (h (G ! a))).
       b < length G \<and> b \<noteq> a \<and> collide (objs (G ! a)) (objs (G ! b)))"

definition lower :: "ref list \<Rightarrow> store \<Rightarrow> bool" where
  "lower G h = (\<forall>a<length G. position (h (G ! a)) \<noteq> 0 \<longrightarrow>
       (\<exists>b<a. b \<in> set (collisions (h (G ! a)))))"

definition mirrored :: "ref list \<Rightarrow> (nat \<times> nat) set \<Rightarrow> store \<Rightarrow> bool" where
  "mirrored G P h = (\<forall>a<length G. \<forall>b\<in>set (collisions (h (G ! a))). b < length G \<longrightarrow>
       a \<in> set (collisions (h (G ! b))) \<or> (a, b) \<in> P)"

definition collapsed :: "ref list \<Rightarrow> (nat \<times> nat) set \<Rightarrow> store \<Rightarrow> bool" where
  "collapsed G P h = (\<forall>a<length G. a \<notin> snd ` P \<longrightarrow> 1 < position (h (G ! a)) \<longrightarrow>
       2 \<le> length (collisions (h (G ! a))))"

definition pass_inv :: "(ref \<Rightarrow> event) \<Rightarrow> ref list \<Rightarrow> (nat \<times> nat) set \<Rightarrow> store \<Rightarrow> bool" where
  "pass_inv objs G P h =
     (registered G h \<and> sound objs G h \<and> lower G h \<and> mirrored G P h \<and> collapsed G P h)"

definition regeom :: "store \<Rightarrow> store \<Rightarrow> bool" where
  "regeom h h' = (\<forall>r. \<exists>c w l. h' r = (h r)\<lparr>columns := c, width := w, left := l\<rparr>)"

text \<open>
  The input that \<open>layOutDay\<close> expects: unique ids, and \<open>start < end\<close> for every
  event.
\<close>

definition valid_input :: "(ref \<Rightarrow> event) \<Rightarrow> ref list \<Rightarrow> bool" where
  "valid_input objs events =
     (distinct (map (\<lambda>r. id' (objs r)) events) \<and>
      (\<forall>r\<in>set events. start (objs r) < end' (objs r)))"

text \<open>A store in which no object has been laid out yet, and inputs of examples.\<close>

definition fresh_store :: store where
  "fresh_store = (\<lambda>r. \<lparr>left = 0, top' = 0, width = 0, duration = 0, overlap = 0, position = 0,
      collisions = [], columns = 0, has_registerCollision = False\<rparr>)"

definition scenario_chain :: "ref \<Rightarrow> event" where
  "scenario_chain r = (if r = 0 then \<lparr>id' = 1, start = 0, end' = 100\<rparr>
                       else if r = 1 then \<lparr>id' = 2, start = 90, end' = 180\<rparr>
                       else \<lparr>id' = 3, start = 170, end' = 250\<rparr>)"

definition scenario_adjacent :: "ref \<Rightarrow> event" where
  "scenario_adjacent r = (if r = 0 then \<lparr>id' = 1, start = 0, end' = 30\<rparr>
                          else \<lparr>id' = 2, start = 30, end' = 60\<rparr>)"

text \<open>
  For the column that the search resolves: \<open>candidates_from objs G k i\<close> are the
  indices from \<open>i\<close> up to \<open>k\<close> whose events collide with the event at \<open>k\<close>, in
  scan order; \<open>resolved objs G k\<close> follows the last candidate down to an event without
  candidates; \<open>scan_state\<close> holds of the stores of the second loop: every object has
  its method, and an event without candidates has position 0.
\<close>

definition candidates_from :: "(ref \<Rightarrow> event) \<Rightarrow> ref list \<Rightarrow> nat \<Rightarrow> nat \<Rightarrow> nat list" where
  "candidates_from objs G k i = filter (\<lambda>j. collide (objs (G ! k)) (objs (G ! j))) [i..<k]"

function resolved :: "(ref \<Rightarrow> event) \<Rightarrow> ref list \<Rightarrow> nat \<Rightarrow> int" where
  "resolved objs G k =
     (if candidates_from objs G k 0 = [] then 0
      else resolved objs G (last (candidates_from objs G k 0)) + 1)"
  by pat_completeness auto

definition scan_state :: "(ref \<Rightarrow> event) \<Rightarrow> ref list \<Rightarrow> store \<Rightarrow> bool" where
  "scan_state objs G h =
     ((\<forall>r\<in>set G. has_registerCollision (h r)) \<and>
      (\<forall>a<length G. candidates_from objs G a 0 = [] \<longrightarrow> position (h (G ! a)) = 0))"

definition scenario_last :: "ref \<Rightarrow> event" where
  "scenario_last r = (if r = 0 then \<lparr>id' = 1, start = 0, end' = 100\<rparr>
                      else if r = 1 then \<lparr>id' = 2, start = 10, end' = 100\<rparr>
                      else if r = 2 then \<lparr>id' = 3, start = 20, end' = 100\<rparr>
                      else if r = 3 then \<lparr>id' = 4, start = 100, end' = 170\<rparr>
                      else \<lparr>id' = 5, start = 95, end' = 105\<rparr>)"

text \<open>
  \<open>agree G1 G2 h1 h2\<close>: the objects of the array \<open>G1\<close> have in \<open>h1\<close> the fields
  that the objects of \<open>G2\<close> at the same indices have in \<open>h2\<close>. The scenarios
  are the inputs of the examples below.
\<close>

definition agree :: "ref list \<Rightarrow> ref list \<Rightarrow> store \<Rightarrow> store \<Rightarrow> bool" where
  "agree G1 G2 h1 h2 = (\<forall>a<length G1. h1 (G1 ! a) = h2 (G2 ! a))"

definition scenario_chain_copy :: "ref \<Rightarrow> event" where
  "scenario_chain_copy r = scenario_chain (r - 5)"

definition scenario_component :: "ref \<Rightarrow> event" where
  "scenario_component r = (if r = 0 then \<lparr>id' = 1, start = 1, end' = 6\<rparr>
                           else if r = 1 then \<lparr>id' = 2, start = 4, end' = 6\<rparr>
                           else if r = 2 then \<lparr>id' = 3, start = 3, end' = 5\<rparr>
                           else \<lparr>id' = 4, start = 1, end' = 3\<rparr>)"

definition scenario_boxes :: "ref \<Rightarrow> event" where
  "scenario_boxes r = (if r = 0 then \<lparr>id' = 1, start = 0, end' = 100\<rparr>
                       else if r = 1 then \<lparr>id' = 2, start = 95, end' = 190\<rparr>
                       else if r = 2 then \<lparr>id' = 3, start = 185, end' = 275\<rparr>
                       else if r = 3 then \<lparr>id' = 4, start = 200, end' = 280\<rparr>
                       else \<lparr>id' = 5, start = 210, end' = 280\<rparr>)"

text \<open>
  Calls of \<open>layOutDay\<close> while the module-level name \<open>events\<close> holds the array
  that an earlier call returned, as after two \<open>new Calendar(...)\<close> (line 134 assigns
  \<open>events\<close> only when \<open>layOutDay\<close> has returned). In \<open>scenario_stale\<close> the objects
  10 and 11 were laid out first (with \<open>events\<close> bound to an empty array), then the
  objects 0 and 1 are. In \<open>scenario_reused\<close> the objects 10, 11 and 12 were laid out
  first, then object 12 is laid out again together with the new objects 0 and 1.
\<close>

definition scenario_stale :: "ref \<Rightarrow> event" where
  "scenario_stale r = (if r = 0 then \<lparr>id' = 1, start = 0, end' = 50\<rparr>
                       else if r = 1 then \<lparr>id' = 2, start = 70, end' = 80\<rparr>
                       else if r = 10 then \<lparr>id' = 8, start = 60, end' = 100\<rparr>
                       else \<lparr>id' = 9, start = 65, end' = 95\<rparr>)"

definition earlier_call :: "error + (ref list \<times> store)" where
  "earlier_call = layOutDay scenario_stale (OtherArray []) [10, 11] fresh_store"

definition later_call :: "error + (ref list \<times> store)" where
  "later_call = layOutDay scenario_stale (OtherArray (fst (projr earlier_call))) [0, 1]
                  (snd (projr earlier_call))"

definition scenario_reused :: "ref \<Rightarrow> event" where
  "scenario_reused r = (if r = 10 then \<lparr>id' = 1, start = 0, end' = 100\<rparr>
                        else if r = 11 then \<lparr>id' = 2, start = 90, end' = 180\<rparr>
                        else if r = 12 then \<lparr>id' = 3, start = 170, end' = 250\<rparr>
                        else if r = 0 then \<lparr>id' = 4, start = 240, end' = 260\<rparr>
                        else \<lparr>id' = 5, start = 300, end' = 310\<rparr>)"

definition first_call :: "error + (ref list \<times> store)" where
  "first_call = layOutDay scenario_reused (OtherArray []) [10, 11, 12] fresh_store"

definition second_call :: "error + (ref list \<times> store)" where
  "second_call = layOutDay scenario_reused (OtherArray (fst (projr first_call))) [12, 0, 1]
                  (snd (projr first_call))"

text \<open>An event that collides with a second one, which a third one touches.\<close>

definition scenario_touch :: "ref \<Rightarrow> event" where
  "scenario_touch r = (if r = 0 then \<lparr>id' = 1, start = 0, end' = 100\<rparr>
                       else if r = 1 then \<lparr>id' = 2, start = 90, end' = 180\<rparr>
                       else \<lparr>id' = 3, start = 180, end' = 250\<rparr>)"

section \<open>Termination of the recursive search\<close>

lemma scan_stop_step:
  "i < length G \<Longrightarrow> id' (objs (G ! i)) \<noteq> id' (objs ev) \<Longrightarrow>
   scan_stop objs G ev i = scan_stop objs G ev (Suc i)"
  by (simp add: scan_stop_def Cons_nth_drop_Suc [symmetric])

lemma scan_stop_ge: "i \<le> scan_stop objs G ev i"
  by (simp add: scan_stop_def)

lemma scan_stop_self: "i < length G \<Longrightarrow> scan_stop objs G (G ! i) 0 \<le> i"
proof -
  assume i: "i < length G"
  let ?P = "\<lambda>r. id' (objs r) \<noteq> id' (objs (G ! i))"
  have "length (takeWhile ?P G) \<le> i"
  proof (rule ccontr)
    assume "\<not> length (takeWhile ?P G) \<le> i"
    then have lt: "i < length (takeWhile ?P G)" by simp
    then have "takeWhile ?P G ! i \<in> set (takeWhile ?P G)" by (rule nth_mem)
    then have "?P (takeWhile ?P G ! i)" by (rule set_takeWhileD [THEN conjunct2])
    moreover have "takeWhile ?P G ! i = G ! i" using lt by (rule takeWhile_nth)
    ultimately show False by simp
  qed
  then show ?thesis by (simp add: scan_stop_def)
qed

termination checkLeft_from
proof (relation "measures [\<lambda>(objs, G, ev, index, i, h). scan_stop objs G ev i,
                           \<lambda>(objs, G, ev, index, i, h). scan_stop objs G ev i - i]")
  show "wf (measures [\<lambda>(objs, G, ev, index, i, h). scan_stop objs G ev i,
                      \<lambda>(objs, G, ev, index, i, h). scan_stop objs G ev i - i])"
    by simp
next
  fix objs :: "ref \<Rightarrow> event" and G ev and index :: nat and i and h h1 :: store
  assume a: "i < length G" "id' (objs (G ! i)) \<noteq> id' (objs ev)"
  have "scan_stop objs G (G ! i) 0 \<le> i" using a(1) by (rule scan_stop_self)
  moreover have "Suc i \<le> scan_stop objs G ev i"
    using scan_stop_step [OF a] scan_stop_ge [of "Suc i" objs G ev] by simp
  ultimately show "((objs, G, G ! i, i, 0, h1), (objs, G, ev, index, i, h))
      \<in> measures [\<lambda>(objs, G, ev, index, i, h). scan_stop objs G ev i,
                  \<lambda>(objs, G, ev, index, i, h). scan_stop objs G ev i - i]"
    by simp
next
  fix objs :: "ref \<Rightarrow> event" and G ev and index :: nat and i and h h4 :: store
  assume a: "i < length G" "id' (objs (G ! i)) \<noteq> id' (objs ev)"
  have "Suc i \<le> scan_stop objs G ev (Suc i)" by (rule scan_stop_ge)
  then show "((objs, G, ev, index, i + 1, h4), (objs, G, ev, index, i, h))
      \<in> measures [\<lambda>(objs, G, ev, index, i, h). scan_stop objs G ev i,
                  \<lambda>(objs, G, ev, index, i, h). scan_stop objs G ev i - i]"
    using scan_stop_step [OF a] by simp
next
  fix objs :: "ref \<Rightarrow> event" and G ev and index :: nat and i and h :: store
  assume a: "i < length G" "id' (objs (G ! i)) \<noteq> id' (objs ev)"
  have "Suc i \<le> scan_stop objs G ev (Suc i)" by (rule scan_stop_ge)
  then show "((objs, G, ev, index, i + 1, h), (objs, G, ev, index, i, h))
      \<in> measures [\<lambda>(objs, G, ev, index, i, h). scan_stop objs G ev i,
                  \<lambda>(objs, G, ev, index, i, h). scan_stop objs G ev i - i]"
    using scan_stop_step [OF a] by simp
qed

declare checkLeft_from.simps [simp del]

lemmas run_defs = layOutDay_def init_pass_def init_layout_def sortByDuration_def
  global_array_def position_step_def geometry_step_def columns_step_def checkLeft_def
  checkLeft_from.simps registerCollision_def set_position_def collide_def Let_def upt_rec

section \<open>Concrete scenarios\<close>

text \<open>
  C1, as amended. For the two events \<open>{id:1,start:0,end:60}\<close> and
  \<open>{id:2,start:0,end:60}\<close> (the objects 0 and 1), laid out with the module-level name
  \<open>events\<close> bound to the array passed, whatever the store held before: each event has
  the other's index as its only collision, the first has column 0 and the second column
  1, both have \<open>columns = 2\<close> and \<open>width = 300\<close>, and \<open>left\<close> is 10 and 310.
\<close>

theorem two_overlapping_events:
  "\<exists>h'. layOutDay scenario2 SameArray [0, 1] h = Inr ([0, 1], h') \<and>
     collisions (h' 0) = [1] \<and> collisions (h' 1) = [0] \<and>
     position (h' 0) = 0 \<and> position (h' 1) = 1 \<and>
     columns (h' 0) = 2 \<and> columns (h' 1) = 2 \<and>
     width (h' 0) = 300 \<and> width (h' 1) = 300 \<and>
     left (h' 0) = 10 \<and> left (h' 1) = 310"
  by (simp add: run_defs scenario2_def)

text \<open>
  C1 as stated fails: with the module-level name \<open>events\<close> bound to an empty array,
  \<open>layOutDay\<close> on the same two events returns them without any collision, the
  second with \<open>columns = 1\<close>, \<open>width = 600\<close> and \<open>left = 10\<close>.
\<close>

theorem other_binding_no_collision:
  "layOutDay scenario2 (OtherArray []) [0, 1] fresh_store =
     Inr ([0, 1], snd (projr (layOutDay scenario2 (OtherArray []) [0, 1] fresh_store))) \<and>
   collisions (snd (projr (layOutDay scenario2 (OtherArray []) [0, 1] fresh_store)) 0) = [] \<and>
   collisions (snd (projr (layOutDay scenario2 (OtherArray []) [0, 1] fresh_store)) 1) = [] \<and>
   columns (snd (projr (layOutDay scenario2 (OtherArray []) [0, 1] fresh_store)) 1) = 1 \<and>
   width (snd (projr (layOutDay scenario2 (OtherArray []) [0, 1] fresh_store)) 1) = 600 \<and>
   left (snd (projr (layOutDay scenario2 (OtherArray []) [0, 1] fresh_store)) 1) = 10"
  by (simp add: run_defs scenario2_def)

section \<open>Which fields the recursive search changes\<close>

lemma grows_refl: "grows h h"
  unfolding grows_def
proof
  fix r
  have "h r = (h r)\<lparr>position := position (h r), collisions := collisions (h r) @ []\<rparr>" by simp
  then show "\<exists>p ys. h r = (h r)\<lparr>position := p, collisions := collisions (h r) @ ys\<rparr>" by blast
qed

lemma grows_trans: "grows h1 h2 \<Longrightarrow> grows h2 h3 \<Longrightarrow> grows h1 h3"
  unfolding grows_def
proof
  fix r
  assume a: "\<forall>r. \<exists>p ys. h2 r = (h1 r)\<lparr>position := p, collisions := collisions (h1 r) @ ys\<rparr>"
     and b: "\<forall>r. \<exists>p ys. h3 r = (h2 r)\<lparr>position := p, collisions := collisions (h2 r) @ ys\<rparr>"
  from a obtain p ys where 1: "h2 r = (h1 r)\<lparr>position := p, collisions := collisions (h1 r) @ ys\<rparr>" by blast
  from b obtain q zs where 2: "h3 r = (h2 r)\<lparr>position := q, collisions := collisions (h2 r) @ zs\<rparr>" by blast
  have "h3 r = (h1 r)\<lparr>position := q, collisions := collisions (h1 r) @ (ys @ zs)\<rparr>"
    by (simp add: 1 2)
  then show "\<exists>p ys. h3 r = (h1 r)\<lparr>position := p, collisions := collisions (h1 r) @ ys\<rparr>" by blast
qed

lemma grows_set_position: "grows h (set_position r p h)"
  unfolding grows_def set_position_def
proof
  fix x
  show "\<exists>q ys. (h(r := (h r)\<lparr>position := p\<rparr>)) x = (h x)\<lparr>position := q, collisions := collisions (h x) @ ys\<rparr>"
  proof (cases "x = r")
    case True
    have "(h(r := (h r)\<lparr>position := p\<rparr>)) x = (h x)\<lparr>position := p, collisions := collisions (h x) @ []\<rparr>"
      using True by simp
    then show ?thesis by blast
  next
    case False
    have "(h(r := (h r)\<lparr>position := p\<rparr>)) x = (h x)\<lparr>position := position (h x), collisions := collisions (h x) @ []\<rparr>"
      using False by simp
    then show ?thesis by blast
  qed
qed

lemma registerCollision_cases:
  assumes "registerCollision r i h = Inr h'"
  obtains (old) "has_registerCollision (h r)" "i \<in> set (collisions (h r))" "h' = h"
  | (new) "has_registerCollision (h r)" "i \<notin> set (collisions (h r))"
          "h' = h(r := (h r)\<lparr>collisions := collisions (h r) @ [i]\<rparr>)"
  using assms by (auto simp: registerCollision_def split: if_splits)

lemma registerCollision_total:
  "has_registerCollision (h r) \<Longrightarrow> \<exists>h'. registerCollision r i h = Inr h'"
  by (simp add: registerCollision_def)

lemma grows_registerCollision:
  assumes "registerCollision r i h = Inr h'" shows "grows h h'"
  using assms
proof (cases rule: registerCollision_cases)
  case old then show ?thesis by (simp add: grows_refl)
next
  case new
  show ?thesis unfolding grows_def
  proof
    fix x
    show "\<exists>q ys. h' x = (h x)\<lparr>position := q, collisions := collisions (h x) @ ys\<rparr>"
    proof (cases "x = r")
      case True
      have "h' x = (h x)\<lparr>position := position (h x), collisions := collisions (h x) @ [i]\<rparr>"
        using True new(3) by simp
      then show ?thesis by blast
    next
      case False
      have "h' x = (h x)\<lparr>position := position (h x), collisions := collisions (h x) @ []\<rparr>"
        using False new(3) by simp
      then show ?thesis by blast
    qed
  qed
qed

lemma checkLeft_from_cases:
  assumes "checkLeft_from objs G ev index i h = Inr h'"
  obtains (stop) "\<not> i < length G \<or> id' (objs (G ! i)) = id' (objs ev)" "h' = h"
  | (hit) h1 h2 h4 where "i < length G" "id' (objs (G ! i)) \<noteq> id' (objs ev)"
      "collide (objs ev) (objs (G ! i))"
      "registerCollision ev i h = Inr h1"
      "checkLeft_from objs G (G ! i) i 0 h1 = Inr h2"
      "registerCollision (G ! i) index (set_position ev (position (h2 (G ! i)) + 1) h2) = Inr h4"
      "checkLeft_from objs G ev index (i + 1) h4 = Inr h'"
  | (miss) "i < length G" "id' (objs (G ! i)) \<noteq> id' (objs ev)"
      "\<not> collide (objs ev) (objs (G ! i))"
      "checkLeft_from objs G ev index (i + 1) h = Inr h'"
  using assms
  by (subst (asm) checkLeft_from.simps) (auto split: if_splits sum.splits)

lemma checkLeft_from_grows:
  "checkLeft_from objs G ev index i h = Inr h' \<Longrightarrow> grows h h'"
proof (induction objs G ev index i h arbitrary: h' rule: checkLeft_from.induct)
  case (1 objs G ev index i h)
  from "1.prems" show ?case
  proof (cases rule: checkLeft_from_cases)
    case stop
    then show ?thesis by (simp add: grows_refl)
  next
    case (hit h1 h2 h4)
    have a: "grows h h1" using hit(4) by (rule grows_registerCollision)
    have b: "grows h1 h2" using hit by (intro "1.IH"(1))
    have c: "grows h2 (set_position ev (position (h2 (G ! i)) + 1) h2)"
      by (rule grows_set_position)
    have d: "grows (set_position ev (position (h2 (G ! i)) + 1) h2) h4"
      using hit(6) by (rule grows_registerCollision)
    have e: "grows h4 h'" using hit by (intro "1.IH"(2))
    show ?thesis using a b c d e by (blast intro: grows_trans)
  next
    case miss
    then show ?thesis by (intro "1.IH"(3))
  qed
qed

lemma grows_has: "grows h h' \<Longrightarrow> has_registerCollision (h' r) = has_registerCollision (h r)"
proof -
  assume "grows h h'"
  then obtain p ys where "h' r = (h r)\<lparr>position := p, collisions := collisions (h r) @ ys\<rparr>"
    unfolding grows_def by blast
  then show ?thesis by simp
qed

lemma grows_columns: "grows h h' \<Longrightarrow> columns (h' r) = columns (h r)"
proof -
  assume "grows h h'"
  then obtain p ys where "h' r = (h r)\<lparr>position := p, collisions := collisions (h r) @ ys\<rparr>"
    unfolding grows_def by blast
  then show ?thesis by simp
qed

lemma grows_collisions: "grows h h' \<Longrightarrow> \<exists>ys. collisions (h' r) = collisions (h r) @ ys"
proof -
  assume "grows h h'"
  then obtain p ys where "h' r = (h r)\<lparr>position := p, collisions := collisions (h r) @ ys\<rparr>"
    unfolding grows_def by blast
  then have "collisions (h' r) = collisions (h r) @ ys" by simp
  then show ?thesis by blast
qed

lemma grows_mem: "grows h h' \<Longrightarrow> i \<in> set (collisions (h r)) \<Longrightarrow> i \<in> set (collisions (h' r))"
  using grows_collisions [of h h' r] by auto

lemma grows_length: "grows h h' \<Longrightarrow> length (collisions (h r)) \<le> length (collisions (h' r))"
  using grows_collisions [of h h' r] by auto

lemma checkLeft_from_total:
  "\<forall>r\<in>set G. has_registerCollision (h r) \<Longrightarrow> has_registerCollision (h ev) \<Longrightarrow>
   \<exists>h'. checkLeft_from objs G ev index i h = Inr h'"
proof (induction objs G ev index i h rule: checkLeft_from.induct)
  case (1 objs G ev index i h)
  show ?case
  proof (cases "i < length G \<and> id' (objs (G ! i)) \<noteq> id' (objs ev)")
    case False
    then show ?thesis by (subst checkLeft_from.simps) auto
  next
    case True
    then have i: "i < length G" and ne: "id' (objs (G ! i)) \<noteq> id' (objs ev)" by auto
    show ?thesis
    proof (cases "collide (objs ev) (objs (G ! i))")
      case False
      have "\<exists>h'. checkLeft_from objs G ev index (i + 1) h = Inr h'"
        using i ne False "1.prems" by (intro "1.IH"(3))
      then show ?thesis using i ne False by (subst checkLeft_from.simps) simp
    next
      case True
      obtain h1 where h1: "registerCollision ev i h = Inr h1"
        using "1.prems"(2) registerCollision_total by blast
      have g1: "grows h h1" using h1 by (rule grows_registerCollision)
      have r1: "\<forall>r\<in>set G. has_registerCollision (h1 r)"
        using "1.prems"(1) grows_has [OF g1] by simp
      have "\<exists>h2. checkLeft_from objs G (G ! i) i 0 h1 = Inr h2"
        using i ne True h1 r1 by (intro "1.IH"(1)) auto
      then obtain h2 where h2: "checkLeft_from objs G (G ! i) i 0 h1 = Inr h2" by blast
      have g2: "grows h1 h2" using h2 by (rule checkLeft_from_grows)
      let ?h3 = "set_position ev (position (h2 (G ! i)) + 1) h2"
      have g3: "grows h2 ?h3" by (rule grows_set_position)
      have g13: "grows h ?h3" using g1 g2 g3 by (blast intro: grows_trans)
      have "has_registerCollision (?h3 (G ! i))"
        using "1.prems"(1) i grows_has [OF g13] by simp
      then obtain h4 where h4: "registerCollision (G ! i) index ?h3 = Inr h4"
        using registerCollision_total by blast
      have g4: "grows ?h3 h4" using h4 by (rule grows_registerCollision)
      have g14: "grows h h4" using g13 g4 by (blast intro: grows_trans)
      have "\<exists>h'. checkLeft_from objs G ev index (i + 1) h4 = Inr h'"
        using i ne True h1 h2 h4 "1.prems" grows_has [OF g14] by (intro "1.IH"(2)) auto
      then show ?thesis using i ne True h1 h2 h4 by (subst checkLeft_from.simps) simp
    qed
  qed
qed

section \<open>An invariant rule for the recursive search\<close>

lemma registerCollision_position:
  "registerCollision r i h = Inr h1 \<Longrightarrow> position (h1 x) = position (h x)"
  by (erule registerCollision_cases) auto

lemma registerCollision_set:
  "registerCollision r i h = Inr h1 \<Longrightarrow>
   set (collisions (h1 x)) = (if x = r then insert i (set (collisions (h x))) else set (collisions (h x)))"
  by (erule registerCollision_cases) auto

lemma registerCollision_mono:
  "registerCollision r i h = Inr h1 \<Longrightarrow> b \<in> set (collisions (h x)) \<Longrightarrow>
   b \<in> set (collisions (h1 x))"
  by (auto simp: registerCollision_set)

lemma registerCollision_mem:
  "registerCollision r i h = Inr h1 \<Longrightarrow> i \<in> set (collisions (h1 r))"
  by (simp add: registerCollision_set)

lemma registerCollision_has:
  "registerCollision r i h = Inr h1 \<Longrightarrow> has_registerCollision (h1 x) = has_registerCollision (h x)"
  by (erule registerCollision_cases) auto

lemma registerCollision_length:
  "registerCollision r i h = Inr h1 \<Longrightarrow> length (collisions (h x)) \<le> length (collisions (h1 x))"
  by (erule registerCollision_cases) auto

lemma set_position_collisions [simp]: "collisions (set_position r p h x) = collisions (h x)"
  by (simp add: set_position_def)

lemma set_position_has [simp]:
  "has_registerCollision (set_position r p h x) = has_registerCollision (h x)"
  by (simp add: set_position_def)

lemma set_position_position:
  "position (set_position r p h x) = (if x = r then p else position (h x))"
  by (simp add: set_position_def)

lemma two_mem_length: "x \<in> set xs \<Longrightarrow> y \<in> set xs \<Longrightarrow> x \<noteq> y \<Longrightarrow> 2 \<le> length xs"
proof -
  assume a: "x \<in> set xs" "y \<in> set xs" "x \<noteq> y"
  then have "{x, y} \<subseteq> set xs" by simp
  then have "card {x, y} \<le> card (set xs)" by (intro card_mono) auto
  moreover have "card {x, y} = 2" using a(3) by simp
  ultimately show ?thesis using card_length [of xs] by linarith
qed

lemma checkLeft_from_invariant:
  fixes I :: "(nat \<times> nat) set \<Rightarrow> store \<Rightarrow> bool"
  assumes U1: "\<And>P h h1 k i. \<lbrakk>I P h; i < k; k < length G; collide (objs (G ! k)) (objs (G ! i));
                 k \<in> snd ` P; registerCollision (G ! k) i h = Inr h1\<rbrakk> \<Longrightarrow> I (insert (k, i) P) h1"
      and U2: "\<And>P h k i. \<lbrakk>I P h; i < k; k < length G; collide (objs (G ! k)) (objs (G ! i));
                 k \<in> snd ` P; (k, i) \<in> P; i \<in> set (collisions (h (G ! k)))\<rbrakk>
                 \<Longrightarrow> I P (set_position (G ! k) (position (h (G ! i)) + 1) h)"
      and U3: "\<And>P h h4 k i. \<lbrakk>I (insert (k, i) P) h; i < k; k < length G;
                 collide (objs (G ! k)) (objs (G ! i)); k \<in> snd ` P;
                 i \<in> set (collisions (h (G ! k))); registerCollision (G ! i) k h = Inr h4\<rbrakk>
                 \<Longrightarrow> I P h4"
  shows "k < length G \<Longrightarrow> i \<le> k \<Longrightarrow> k \<in> snd ` P \<Longrightarrow> I P h \<Longrightarrow>
         checkLeft_from objs G (G ! k) k i h = Inr h' \<Longrightarrow> I P h'"
proof (induction k arbitrary: i P h h' rule: less_induct)
  case (less k)
  note outer = less.IH
  from less.prems show ?case
  proof (induction "k - i" arbitrary: i h rule: less_induct)
    case inner: less
    from inner.prems(5) show ?case
    proof (cases rule: checkLeft_from_cases)
      case stop
      then show ?thesis using inner.prems(4) by simp
    next
      case (hit h1 h2 h4)
      have ik: "i < k" using hit(2) inner.prems(2) by (cases "i = k") auto
      have a1: "I (insert (k, i) P) h1"
        using inner.prems(4) ik inner.prems(1) hit(3) inner.prems(3) hit(4) by (rule U1)
      have a2: "I (insert (k, i) P) h2"
        using ik _ _ _ a1 hit(5)
      proof (rule outer)
        show "i < length G" by (rule hit(1))
        show "0 \<le> i" by simp
        show "i \<in> snd ` insert (k, i) P" by simp
      qed
      have m1: "i \<in> set (collisions (h1 (G ! k)))"
        using registerCollision_set [OF hit(4), of "G ! k"] by simp
      have m2: "i \<in> set (collisions (h2 (G ! k)))"
        using checkLeft_from_grows [OF hit(5)] m1 by (rule grows_mem)
      let ?h3 = "set_position (G ! k) (position (h2 (G ! i)) + 1) h2"
      have a3: "I (insert (k, i) P) ?h3"
        using a2 ik inner.prems(1) hit(3) _ _ m2
      proof (rule U2)
        show "k \<in> snd ` insert (k, i) P" using inner.prems(3) by simp
        show "(k, i) \<in> insert (k, i) P" by simp
      qed
      have m3: "i \<in> set (collisions (?h3 (G ! k)))" using m2 by simp
      have a4: "I P h4"
        using a3 ik inner.prems(1) hit(3) inner.prems(3) m3 hit(6) by (rule U3)
      show ?thesis
        using _ inner.prems(1) _ inner.prems(3) a4 hit(7)
      proof (rule inner.hyps)
        show "k - (i + 1) < k - i" using ik by simp
        show "i + 1 \<le> k" using ik by simp
      qed
    next
      case miss
      have ik: "i < k" using miss(2) inner.prems(2) by (cases "i = k") auto
      show ?thesis
        using _ inner.prems(1) _ inner.prems(3) inner.prems(4) miss(4)
      proof (rule inner.hyps)
        show "k - (i + 1) < k - i" using ik by simp
        show "i + 1 \<le> k" using ik by simp
      qed
    qed
  qed
qed

section \<open>The invariant of the second loop\<close>

lemma lowerD:
  "lower G h \<Longrightarrow> a < length G \<Longrightarrow> position (h (G ! a)) \<noteq> 0 \<Longrightarrow>
   \<exists>b<a. b \<in> set (collisions (h (G ! a)))"
  by (simp add: lower_def)

lemma collide_sym: "collide a b = collide b a"
  by (auto simp: collide_def)

lemma pass_inv_U1:
  assumes d: "distinct G" and I: "pass_inv objs G P h" and ik: "i < k" "k < length G"
    and c: "collide (objs (G ! k)) (objs (G ! i))"
    and r: "registerCollision (G ! k) i h = Inr h1"
  shows "pass_inv objs G (insert (k, i) P) h1"
proof -
  note S = registerCollision_set [OF r] registerCollision_position [OF r]
    registerCollision_has [OF r] nth_eq_iff_index_eq [OF d]
  have 1: "registered G h1" using I by (simp add: pass_inv_def registered_def S)
  have 2: "sound objs G h1"
    unfolding sound_def
  proof (intro allI impI ballI)
    fix a b assume a: "a < length G" and b: "b \<in> set (collisions (h1 (G ! a)))"
    have old: "\<forall>b\<in>set (collisions (h (G ! a))).
       b < length G \<and> b \<noteq> a \<and> collide (objs (G ! a)) (objs (G ! b))"
      using I a by (simp add: pass_inv_def sound_def)
    show "b < length G \<and> b \<noteq> a \<and> collide (objs (G ! a)) (objs (G ! b))"
    proof (cases "a = k \<and> b = i")
      case True then show ?thesis using ik c by simp
    next
      case False
      then have "b \<in> set (collisions (h (G ! a)))" using b a ik by (auto simp: S split: if_splits)
      then show ?thesis using old by blast
    qed
  qed
  have 3: "lower G h1" using I ik
    by (auto simp: pass_inv_def lower_def S split: if_splits)
  have 4: "mirrored G (insert (k, i) P) h1" using I ik
    by (auto simp: pass_inv_def mirrored_def S split: if_splits)
  have 5: "collapsed G (insert (k, i) P) h1"
    unfolding collapsed_def
  proof (intro allI impI)
    fix a assume a: "a < length G" "a \<notin> snd ` insert (k, i) P" "1 < position (h1 (G ! a))"
    then have "2 \<le> length (collisions (h (G ! a)))"
      using I by (auto simp: pass_inv_def collapsed_def S)
    then show "2 \<le> length (collisions (h1 (G ! a)))"
      using registerCollision_length [OF r, of "G ! a"] by linarith
  qed
  show ?thesis using 1 2 3 4 5 by (simp add: pass_inv_def)
qed

lemma pass_inv_U2:
  assumes d: "distinct G" and I: "pass_inv objs G P h" and ik: "i < k" "k < length G"
    and kP: "k \<in> snd ` P" and m: "i \<in> set (collisions (h (G ! k)))"
  shows "pass_inv objs G P (set_position (G ! k) p h)"
proof -
  note S = set_position_position nth_eq_iff_index_eq [OF d]
  have 1: "registered G (set_position (G ! k) p h)" using I by (simp add: pass_inv_def registered_def)
  have 2: "sound objs G (set_position (G ! k) p h)" using I by (simp add: pass_inv_def sound_def)
  have 3: "lower G (set_position (G ! k) p h)" using I ik m
    by (auto simp: pass_inv_def lower_def S)
  have 4: "mirrored G P (set_position (G ! k) p h)" using I by (simp add: pass_inv_def mirrored_def)
  have 5: "collapsed G P (set_position (G ! k) p h)" using I ik kP
    by (auto simp: pass_inv_def collapsed_def S)
  show ?thesis using 1 2 3 4 5 by (simp add: pass_inv_def)
qed

lemma pass_inv_U3:
  assumes d: "distinct G" and I: "pass_inv objs G (insert (k, i) P) h" and ik: "i < k" "k < length G"
    and c: "collide (objs (G ! k)) (objs (G ! i))"
    and m: "i \<in> set (collisions (h (G ! k)))"
    and r: "registerCollision (G ! i) k h = Inr h4"
  shows "pass_inv objs G P h4"
proof -
  note S = registerCollision_set [OF r] registerCollision_position [OF r]
    registerCollision_has [OF r] nth_eq_iff_index_eq [OF d]
  have c': "collide (objs (G ! i)) (objs (G ! k))" using c by (simp add: collide_sym)
  have 1: "registered G h4" using I by (simp add: pass_inv_def registered_def S)
  have il: "i < length G" using ik by simp
  have 2: "sound objs G h4"
    unfolding sound_def
  proof (intro allI impI ballI)
    fix a b assume a: "a < length G" and b: "b \<in> set (collisions (h4 (G ! a)))"
    have old: "\<forall>b\<in>set (collisions (h (G ! a))).
       b < length G \<and> b \<noteq> a \<and> collide (objs (G ! a)) (objs (G ! b))"
      using I a by (simp add: pass_inv_def sound_def)
    show "b < length G \<and> b \<noteq> a \<and> collide (objs (G ! a)) (objs (G ! b))"
    proof (cases "a = i \<and> b = k")
      case True then show ?thesis using ik c' by simp
    next
      case False
      then have "b \<in> set (collisions (h (G ! a)))" using b a il by (auto simp: S split: if_splits)
      then show ?thesis using old by blast
    qed
  qed
  have 3: "lower G h4"
    unfolding lower_def
  proof (intro allI impI)
    fix a assume a: "a < length G" "position (h4 (G ! a)) \<noteq> 0"
    then obtain b where "b < a" "b \<in> set (collisions (h (G ! a)))"
      using I by (auto simp: pass_inv_def lower_def S)
    then have "b < a \<and> b \<in> set (collisions (h4 (G ! a)))"
      using registerCollision_mono [OF r] by simp
    then show "\<exists>b<a. b \<in> set (collisions (h4 (G ! a)))" by blast
  qed
  have 4: "mirrored G P h4"
    unfolding mirrored_def
  proof (intro allI impI ballI)
    fix a b assume a: "a < length G" and b: "b \<in> set (collisions (h4 (G ! a)))" "b < length G"
    have old: "\<forall>b\<in>set (collisions (h (G ! a))). b < length G \<longrightarrow>
       a \<in> set (collisions (h (G ! b))) \<or> (a, b) \<in> insert (k, i) P"
      using I a by (simp add: pass_inv_def mirrored_def)
    show "a \<in> set (collisions (h4 (G ! b))) \<or> (a, b) \<in> P"
    proof (cases "a = i \<and> b = k")
      case True then show ?thesis using m registerCollision_mono [OF r] by simp
    next
      case False
      then have "b \<in> set (collisions (h (G ! a)))" using b a il by (auto simp: S split: if_splits)
      then have "a \<in> set (collisions (h (G ! b))) \<or> (a, b) \<in> insert (k, i) P"
        using old b(2) by blast
      then show ?thesis
      proof
        assume "a \<in> set (collisions (h (G ! b)))"
        then show ?thesis using registerCollision_mono [OF r] by simp
      next
        assume "(a, b) \<in> insert (k, i) P"
        then show ?thesis using registerCollision_mem [OF r] by auto
      qed
    qed
  qed
  have 5: "collapsed G P h4"
    unfolding collapsed_def
  proof (intro allI impI)
    fix a assume a: "a < length G" "a \<notin> snd ` P" "1 < position (h4 (G ! a))"
    show "2 \<le> length (collisions (h4 (G ! a)))"
    proof (cases "a = i")
      case True
      have "position (h (G ! i)) \<noteq> 0" using a(3) True by (simp add: S)
      moreover have "lower G h" using I by (simp add: pass_inv_def)
      ultimately obtain b where b: "b < i" "b \<in> set (collisions (h (G ! i)))"
        using il lowerD by blast
      have "b \<in> set (collisions (h4 (G ! i)))" "k \<in> set (collisions (h4 (G ! i)))"
        using b by (simp_all add: S)
      moreover have "b \<noteq> k" using b(1) ik by simp
      ultimately show ?thesis using True by (auto intro: two_mem_length)
    next
      case False
      then have "a \<notin> snd ` insert (k, i) P" using a(2) by simp
      then have "2 \<le> length (collisions (h (G ! a)))"
        using I a by (auto simp: pass_inv_def collapsed_def S)
      then show ?thesis using registerCollision_length [OF r, of "G ! a"] by linarith
    qed
  qed
  show ?thesis using 1 2 3 4 5 by (simp add: pass_inv_def)
qed

lemma checkLeft_from_pass_inv:
  assumes d: "distinct G" and k: "k < length G" "k \<in> snd ` P" and I: "pass_inv objs G P h"
    and run: "checkLeft_from objs G (G ! k) k 0 h = Inr h'"
  shows "pass_inv objs G P h'"
proof (rule checkLeft_from_invariant [where I = "pass_inv objs G" and objs = objs and G = G,
        OF _ _ _ k(1) _ k(2) I run])
  show "\<And>P h h1 k i. \<lbrakk>pass_inv objs G P h; i < k; k < length G;
      collide (objs (G ! k)) (objs (G ! i)); k \<in> snd ` P;
      registerCollision (G ! k) i h = Inr h1\<rbrakk> \<Longrightarrow> pass_inv objs G (insert (k, i) P) h1"
    using d by (rule pass_inv_U1)
  show "\<And>P h k i. \<lbrakk>pass_inv objs G P h; i < k; k < length G;
      collide (objs (G ! k)) (objs (G ! i)); k \<in> snd ` P; (k, i) \<in> P;
      i \<in> set (collisions (h (G ! k)))\<rbrakk>
      \<Longrightarrow> pass_inv objs G P (set_position (G ! k) (position (h (G ! i)) + 1) h)"
    using d by (rule pass_inv_U2)
  show "\<And>P h h4 k i. \<lbrakk>pass_inv objs G (insert (k, i) P) h; i < k; k < length G;
      collide (objs (G ! k)) (objs (G ! i)); k \<in> snd ` P;
      i \<in> set (collisions (h (G ! k))); registerCollision (G ! i) k h = Inr h4\<rbrakk>
      \<Longrightarrow> pass_inv objs G P h4"
    using d by (rule pass_inv_U3)
  show "0 \<le> k" by simp
qed

section \<open>The loops of layOutDay\<close>

lemma set_position_same: "set_position r (position (h r)) h = h"
  by (simp add: set_position_def)

lemma pass_inv_top:
  assumes d: "distinct G" and e: "e < length G" and I: "pass_inv objs G {(length G, e)} h"
  shows "pass_inv objs G {}
           (if 1 < position (h (G ! e)) \<and> length (collisions (h (G ! e))) < 2
            then set_position (G ! e) 0 h else h)" (is "pass_inv objs G {} ?h'")
proof -
  note S = set_position_position nth_eq_iff_index_eq [OF d]
  have c: "\<And>r. collisions (?h' r) = collisions (h r)" by simp
  have p: "\<And>a. a < length G \<Longrightarrow> a \<noteq> e \<Longrightarrow> position (?h' (G ! a)) = position (h (G ! a))"
    using e by (simp add: S)
  have 1: "registered G ?h'" using I by (simp add: pass_inv_def registered_def)
  have 2: "sound objs G ?h'" using I unfolding pass_inv_def sound_def c by blast
  have 3: "lower G ?h'"
    unfolding lower_def c
  proof (intro allI impI)
    fix a assume a: "a < length G" "position (?h' (G ! a)) \<noteq> 0"
    have "position (h (G ! a)) \<noteq> 0"
    proof (cases "a = e")
      case True then show ?thesis using a(2) by (auto simp: S split: if_splits)
    next
      case False then show ?thesis using a p by simp
    qed
    moreover have "lower G h" using I by (simp add: pass_inv_def)
    ultimately show "\<exists>b<a. b \<in> set (collisions (h (G ! a)))" using a(1) lowerD by blast
  qed
  have 4: "mirrored G {} ?h'"
    unfolding mirrored_def c
  proof (intro allI impI ballI)
    fix a b assume a: "a < length G" "b \<in> set (collisions (h (G ! a)))" "b < length G"
    have "mirrored G {(length G, e)} h" using I by (simp add: pass_inv_def)
    then have "a \<in> set (collisions (h (G ! b))) \<or> (a, b) \<in> {(length G, e)}"
      using a unfolding mirrored_def by blast
    then show "a \<in> set (collisions (h (G ! b))) \<or> (a, b) \<in> {}" using a(1) by auto
  qed
  have 5: "collapsed G {} ?h'"
    unfolding collapsed_def c
  proof (intro allI impI)
    fix a assume a: "a < length G" "1 < position (?h' (G ! a))"
    show "2 \<le> length (collisions (h (G ! a)))"
    proof (cases "a = e")
      case True then show ?thesis using a(2) by (auto simp: S split: if_splits)
    next
      case False
      have "collapsed G {(length G, e)} h" using I by (simp add: pass_inv_def)
      moreover have "a \<notin> snd ` {(length G, e)}" using False by simp
      moreover have "1 < position (h (G ! a))" using a False p by simp
      ultimately show ?thesis using a(1) unfolding collapsed_def by blast
    qed
  qed
  show ?thesis using 1 2 3 4 5 by (simp add: pass_inv_def)
qed

lemma pass_inv_pending:
  assumes I: "pass_inv objs G {} h" shows "pass_inv objs G P h"
proof -
  have "mirrored G P h" using I unfolding pass_inv_def mirrored_def by blast
  moreover have "collapsed G P h" using I unfolding pass_inv_def collapsed_def by blast
  ultimately show ?thesis using I by (simp add: pass_inv_def)
qed

lemma position_step_pass_inv:
  assumes d: "distinct G" and e: "e < length G" and I: "pass_inv objs G {} h"
  shows "\<exists>h'. position_step objs (Some G) G e h = Inr h' \<and> pass_inv objs G {} h' \<and> grows h h'"
proof -
  have reg: "\<forall>r\<in>set G. has_registerCollision (h r)"
    using I by (simp add: pass_inv_def registered_def)
  then have "has_registerCollision (h (G ! e))" using e by simp
  then obtain h1 where h1: "checkLeft_from objs G (G ! e) e 0 h = Inr h1"
    using reg checkLeft_from_total by blast
  have I1: "pass_inv objs G {(length G, e)} h1"
    using d e _ pass_inv_pending [OF I] h1 by (rule checkLeft_from_pass_inv) simp
  let ?h' = "if 1 < position (h1 (G ! e)) \<and> length (collisions (h1 (G ! e))) < 2
             then set_position (G ! e) 0 h1 else h1"
  have r: "position_step objs (Some G) G e h = Inr ?h'"
    by (simp add: position_step_def checkLeft_def h1 set_position_same)
  have "grows h h1" using h1 by (rule checkLeft_from_grows)
  moreover have "grows h1 ?h'" by (simp add: grows_refl grows_set_position)
  ultimately have g: "grows h ?h'" by (rule grows_trans)
  show ?thesis using r pass_inv_top [OF d e I1] g by blast
qed

lemma for_each_invariant:
  assumes "\<And>x h. x \<in> set xs \<Longrightarrow> J h \<Longrightarrow> \<exists>h'. body x h = Inr h' \<and> J h'" and "J h"
  shows "\<exists>h'. for_each xs body h = Inr h' \<and> J h'"
  using assms
proof (induction xs arbitrary: h)
  case Nil
  then show ?case by simp
next
  case (Cons x xs)
  obtain h1 where h1: "body x h = Inr h1" "J h1" using Cons.prems by fastforce
  have "\<exists>h'. for_each xs body h1 = Inr h' \<and> J h'"
    using Cons.prems(1) h1(2) by (intro Cons.IH) auto
  then show ?case using h1(1) by simp
qed

lemma position_pass_inv:
  assumes d: "distinct G" and I: "pass_inv objs G {} h"
  shows "\<exists>h'. for_each [0..<length G] (position_step objs (Some G) G) h = Inr h' \<and>
              pass_inv objs G {} h' \<and> grows h h'"
proof -
  have "\<exists>h'. for_each [0..<length G] (position_step objs (Some G) G) h = Inr h' \<and>
              (pass_inv objs G {} h' \<and> grows h h')"
  proof (rule for_each_invariant)
    show "pass_inv objs G {} h \<and> grows h h" using I by (simp add: grows_refl)
  next
    fix x h0 assume x: "x \<in> set [0..<length G]" and J: "pass_inv objs G {} h0 \<and> grows h h0"
    have "x < length G" using x by simp
    then obtain h' where "position_step objs (Some G) G x h0 = Inr h'" "pass_inv objs G {} h'"
      "grows h0 h'" using position_step_pass_inv [OF d _ conjunct1 [OF J]] by blast
    then show "\<exists>h'. position_step objs (Some G) G x h0 = Inr h' \<and> pass_inv objs G {} h' \<and> grows h h'"
      using J grows_trans by blast
  qed
  then show ?thesis by blast
qed

text \<open>The first loop.\<close>

lemma fold_update:
  "fold (\<lambda>r h'. h'(r := f r)) xs h x = (if x \<in> set xs then f x else h x)"
  by (induction xs arbitrary: h) auto

lemma init_pass_in: "r \<in> set events \<Longrightarrow> init_pass objs events h r = init_layout (objs r)"
  by (simp add: init_pass_def fold_update)

lemma init_pass_inv:
  assumes "set G = set events"
  shows "pass_inv objs G {} (init_pass objs events h)"
proof -
  have r: "\<And>r. r \<in> set G \<Longrightarrow> init_pass objs events h r = init_layout (objs r)"
    using assms by (simp add: init_pass_in)
  have "\<And>a. a < length G \<Longrightarrow> init_pass objs events h (G ! a) = init_layout (objs (G ! a))"
    by (rule r) simp
  then show ?thesis using r
    by (simp add: pass_inv_def registered_def sound_def lower_def mirrored_def collapsed_def
        init_layout_def)
qed

text \<open>The sort.\<close>

lemma mset_insert_by: "mset (insert_by cmp x xs) = add_mset x (mset xs)"
  by (induction xs) auto

lemma mset_array_sort: "mset (array_sort cmp xs) = mset xs"
  by (induction xs) (auto simp: mset_insert_by)

lemma set_array_sort: "set (array_sort cmp xs) = set xs"
  using mset_array_sort [of cmp xs] by (metis set_mset_mset)

lemma length_array_sort: "length (array_sort cmp xs) = length xs"
  using mset_array_sort [of cmp xs] by (metis size_mset)

lemma distinct_array_sort: "distinct (array_sort cmp xs) = distinct xs"
  using mset_array_sort [of cmp xs] by (metis mset_eq_imp_distinct_iff)

section \<open>The third loop\<close>

lemma regeom_refl: "regeom h h"
  unfolding regeom_def
proof
  fix r
  have "h r = (h r)\<lparr>columns := columns (h r), width := width (h r), left := left (h r)\<rparr>" by simp
  then show "\<exists>c w l. h r = (h r)\<lparr>columns := c, width := w, left := l\<rparr>" by blast
qed

lemma regeom_trans: "regeom h1 h2 \<Longrightarrow> regeom h2 h3 \<Longrightarrow> regeom h1 h3"
  unfolding regeom_def
proof
  fix r
  assume a: "\<forall>r. \<exists>c w l. h2 r = (h1 r)\<lparr>columns := c, width := w, left := l\<rparr>"
     and b: "\<forall>r. \<exists>c w l. h3 r = (h2 r)\<lparr>columns := c, width := w, left := l\<rparr>"
  from a obtain c w l where 1: "h2 r = (h1 r)\<lparr>columns := c, width := w, left := l\<rparr>" by blast
  from b obtain c' w' l' where 2: "h3 r = (h2 r)\<lparr>columns := c', width := w', left := l'\<rparr>" by blast
  have "h3 r = (h1 r)\<lparr>columns := c', width := w', left := l'\<rparr>" by (simp add: 1 2)
  then show "\<exists>c w l. h3 r = (h1 r)\<lparr>columns := c, width := w, left := l\<rparr>" by blast
qed

lemma regeom_update:
  "regeom h (h(r := (h r)\<lparr>columns := c, width := w, left := l\<rparr>))"
  unfolding regeom_def
proof
  fix x
  show "\<exists>c' w' l'. (h(r := (h r)\<lparr>columns := c, width := w, left := l\<rparr>)) x =
          (h x)\<lparr>columns := c', width := w', left := l'\<rparr>"
  proof (cases "x = r")
    case True
    then have "(h(r := (h r)\<lparr>columns := c, width := w, left := l\<rparr>)) x =
          (h x)\<lparr>columns := c, width := w, left := l\<rparr>" by simp
    then show ?thesis by blast
  next
    case False
    then have "(h(r := (h r)\<lparr>columns := c, width := w, left := l\<rparr>)) x =
          (h x)\<lparr>columns := columns (h x), width := width (h x), left := left (h x)\<rparr>" by simp
    then show ?thesis by blast
  qed
qed

lemma regeom_columns: "regeom h (h(r := (h r)\<lparr>columns := c\<rparr>))"
  using regeom_update [where h = h and r = r and c = c and w = "width (h r)" and l = "left (h r)"] by simp

lemma regeom_width: "regeom h (h(r := (h r)\<lparr>width := w\<rparr>))"
  using regeom_update [where h = h and r = r and c = "columns (h r)" and w = w and l = "left (h r)"] by simp

lemma regeom_left: "regeom h (h(r := (h r)\<lparr>left := l\<rparr>))"
  using regeom_update [where h = h and r = r and c = "columns (h r)" and w = "width (h r)" and l = l] by simp

lemma regeom_fields:
  assumes "regeom h h'"
  shows "collisions (h' r) = collisions (h r)" "position (h' r) = position (h r)"
proof -
  obtain c w l where "h' r = (h r)\<lparr>columns := c, width := w, left := l\<rparr>"
    using assms unfolding regeom_def by blast
  then show "collisions (h' r) = collisions (h r)" "position (h' r) = position (h r)"
    by simp_all
qed

lemma columns_step_effect:
  assumes "columns_step events ev c h = Inr h'"
  shows "regeom h h' \<and> (\<forall>r. r \<noteq> ev \<longrightarrow> r \<noteq> events ! c \<longrightarrow> h' r = h r)"
proof -
  let ?h1 = "h(ev := (h ev)\<lparr>columns := max (columns (h ev)) (position (h (events ! c)) + 1)\<rparr>)"
  have h': "h' = ?h1(events ! c := (?h1 (events ! c))\<lparr>columns := columns (?h1 ev)\<rparr>)"
    using assms by (simp add: columns_step_def Let_def split: if_splits)
  have "regeom h ?h1" by (rule regeom_columns)
  moreover have "regeom ?h1 h'" unfolding h' by (rule regeom_columns)
  ultimately have "regeom h h'" by (rule regeom_trans)
  moreover have "\<forall>r. r \<noteq> ev \<longrightarrow> r \<noteq> events ! c \<longrightarrow> h' r = h r" unfolding h' by simp
  ultimately show ?thesis by blast
qed

lemma columns_loop_effect:
  "for_each cs (columns_step events ev) h = Inr h' \<Longrightarrow>
   regeom h h' \<and> (\<forall>r. (\<forall>c\<in>set cs. r \<noteq> ev \<and> r \<noteq> events ! c) \<longrightarrow> h' r = h r)"
proof (induction cs arbitrary: h)
  case Nil
  then show ?case by (simp add: regeom_refl)
next
  case (Cons c cs)
  from Cons.prems obtain h1 where h1: "columns_step events ev c h = Inr h1"
    "for_each cs (columns_step events ev) h1 = Inr h'"
    by (auto split: sum.splits)
  note a = columns_step_effect [OF h1(1)] and b = Cons.IH [OF h1(2)]
  have "regeom h h'" using a b regeom_trans by blast
  moreover have "\<forall>r. (\<forall>c\<in>set (c # cs). r \<noteq> ev \<and> r \<noteq> events ! c) \<longrightarrow> h' r = h r"
    using a b by simp
  ultimately show ?case by blast
qed

lemma columns_loop_total:
  "\<forall>c\<in>set cs. c < length events \<Longrightarrow> \<exists>h'. for_each cs (columns_step events ev) h = Inr h'"
proof (induction cs arbitrary: h)
  case Nil
  then show ?case by simp
next
  case (Cons c cs)
  then obtain h1 where "columns_step events ev c h = Inr h1"
    by (simp add: columns_step_def Let_def)
  then show ?case using Cons by simp
qed

lemma geometry_step_effect:
  assumes "\<forall>c\<in>set (collisions (h (events ! e))). c < length events"
  shows "\<exists>h'. geometry_step events e h = Inr h' \<and> regeom h h' \<and>
    (\<forall>r. r \<noteq> events ! e \<longrightarrow> (\<forall>c\<in>set (collisions (h (events ! e))). r \<noteq> events ! c)
        \<longrightarrow> h' r = h r) \<and>
    (collisions (h (events ! e)) = [] \<longrightarrow> columns (h' (events ! e)) = columns (h (events ! e)))"
proof -
  let ?ev = "events ! e"
  let ?cs = "rev (collisions (h ?ev))"
  have "\<forall>c\<in>set ?cs. c < length events" using assms by simp
  then obtain h1 where h1: "for_each ?cs (columns_step events ?ev) h = Inr h1"
    using columns_loop_total by blast
  note a = columns_loop_effect [OF h1]
  let ?h2 = "h1(?ev := (h1 ?ev)\<lparr>width := 600 div columns (h1 ?ev)\<rparr>)"
  let ?h3 = "?h2(?ev := (?h2 ?ev)\<lparr>left := position (?h2 ?ev) * width (?h2 ?ev) + 10\<rparr>)"
  have r: "geometry_step events e h = Inr ?h3"
    by (simp add: geometry_step_def h1 Let_def)
  have "regeom h1 ?h2" by (rule regeom_width)
  moreover have "regeom ?h2 ?h3" by (rule regeom_left)
  ultimately have g: "regeom h ?h3" using a regeom_trans by blast
  have f: "\<forall>r. r \<noteq> ?ev \<longrightarrow> (\<forall>c\<in>set (collisions (h ?ev)). r \<noteq> events ! c) \<longrightarrow> ?h3 r = h r"
    using a by simp
  have n: "collisions (h ?ev) = [] \<longrightarrow> columns (?h3 ?ev) = columns (h ?ev)"
    using h1 by auto
  show ?thesis using r g f n by blast
qed

lemma geometry_pass:
  assumes d: "distinct G" and I: "pass_inv objs G {} h2"
  shows "\<exists>h3. for_each [0..<length G] (geometry_step G) h2 = Inr h3 \<and>
     (regeom h2 h3 \<and>
      (\<forall>x<length G. collisions (h2 (G ! x)) = [] \<longrightarrow> columns (h3 (G ! x)) = columns (h2 (G ! x))))"
proof (rule for_each_invariant)
  show "regeom h2 h2 \<and>
    (\<forall>x<length G. collisions (h2 (G ! x)) = [] \<longrightarrow> columns (h2 (G ! x)) = columns (h2 (G ! x)))"
    by (simp add: regeom_refl)
next
  fix e h
  assume e: "e \<in> set [0..<length G]"
    and J: "regeom h2 h \<and>
      (\<forall>x<length G. collisions (h2 (G ! x)) = [] \<longrightarrow> columns (h (G ! x)) = columns (h2 (G ! x)))"
  have el: "e < length G" using e by simp
  have s: "sound objs G h2" and m: "mirrored G {} h2" using I by (simp_all add: pass_inv_def)
  have c: "\<And>r. collisions (h r) = collisions (h2 r)" using J regeom_fields(1) by blast
  have b: "\<forall>c\<in>set (collisions (h (G ! e))). c < length G"
    using s el unfolding sound_def c by blast
  from geometry_step_effect [where h = h and events = G and e = e, OF b] obtain h' where h': "geometry_step G e h = Inr h'"
    "regeom h h'"
    "\<forall>r. r \<noteq> G ! e \<longrightarrow> (\<forall>c\<in>set (collisions (h (G ! e))). r \<noteq> G ! c) \<longrightarrow> h' r = h r"
    "collisions (h (G ! e)) = [] \<longrightarrow> columns (h' (G ! e)) = columns (h (G ! e))"
    by blast
  have "columns (h' (G ! x)) = columns (h2 (G ! x))"
    if x: "x < length G" "collisions (h2 (G ! x)) = []" for x
  proof (cases "x = e")
    case True
    then show ?thesis using h'(4) x J c by simp
  next
    case False
    have ne: "G ! x \<noteq> G ! e" using False x(1) el d by (simp add: nth_eq_iff_index_eq)
    have "G ! x \<noteq> G ! c" if cc: "c \<in> set (collisions (h (G ! e)))" for c
    proof
      assume eq: "G ! x = G ! c"
      have cl: "c < length G" using b cc by blast
      then have "x = c" using eq x(1) d by (simp add: nth_eq_iff_index_eq)
      then have "x \<in> set (collisions (h2 (G ! e)))" using cc c by simp
      then have "e \<in> set (collisions (h2 (G ! x)))"
        using m el x(1) unfolding mirrored_def by blast
      then show False using x(2) by simp
    qed
    then have "h' (G ! x) = h (G ! x)" using h'(3) ne by blast
    then show ?thesis using J x by simp
  qed
  moreover have "regeom h2 h'" using J h'(2) regeom_trans by blast
  ultimately show "\<exists>h'. geometry_step G e h = Inr h' \<and> regeom h2 h' \<and>
    (\<forall>x<length G. collisions (h2 (G ! x)) = [] \<longrightarrow> columns (h' (G ! x)) = columns (h2 (G ! x)))"
    using h'(1) by blast
qed

lemma valid_input_distinct: "valid_input objs events \<Longrightarrow> distinct events"
  by (simp add: valid_input_def distinct_map)

lemma layOutDay_same:
  assumes d: "distinct events"
  shows "\<exists>h2 h3. layOutDay objs SameArray events h =
            Inr (array_sort (\<lambda>a b. sortByDuration (objs a) (objs b)) events, h3) \<and>
      pass_inv objs (array_sort (\<lambda>a b. sortByDuration (objs a) (objs b)) events) {} h2 \<and>
      grows (init_pass objs events h) h2 \<and> regeom h2 h3 \<and>
      (\<forall>r\<in>set events. collisions (h2 r) = [] \<longrightarrow> columns (h3 r) = columns (h2 r))"
proof -
  let ?G = "array_sort (\<lambda>a b. sortByDuration (objs a) (objs b)) events"
  let ?h1 = "init_pass objs events h"
  have dG: "distinct ?G" using d by (simp add: distinct_array_sort)
  have sG: "set ?G = set events" by (rule set_array_sort)
  have I1: "pass_inv objs ?G {} ?h1" using sG by (rule init_pass_inv)
  from position_pass_inv [OF dG I1] obtain h2 where
    h2: "for_each [0..<length ?G] (position_step objs (Some ?G) ?G) ?h1 = Inr h2"
      "pass_inv objs ?G {} h2" "grows ?h1 h2" by blast
  from geometry_pass [OF dG h2(2)] obtain h3 where
    h3: "for_each [0..<length ?G] (geometry_step ?G) h2 = Inr h3" "regeom h2 h3"
      "\<forall>x<length ?G. collisions (h2 (?G ! x)) = [] \<longrightarrow> columns (h3 (?G ! x)) = columns (h2 (?G ! x))"
    by blast
  have r: "layOutDay objs SameArray events h = Inr (?G, h3)"
    by (simp add: layOutDay_def global_array_def Let_def h2(1) h3(1))
  have "\<forall>r\<in>set events. collisions (h2 r) = [] \<longrightarrow> columns (h3 r) = columns (h2 r)"
  proof
    fix r assume "r \<in> set events"
    then have "r \<in> set ?G" using sG by simp
    then obtain x where "x < length ?G" "r = ?G ! x" by (auto simp: in_set_conv_nth)
    then show "collisions (h2 r) = [] \<longrightarrow> columns (h3 r) = columns (h2 r)" using h3(3) by simp
  qed
  then show ?thesis using r h2(2,3) h3(2) by blast
qed

section \<open>Properties of the layout\<close>

lemma layOutDay_same_input:
  assumes "valid_input objs events"
  shows "\<exists>h2 h3. layOutDay objs SameArray events h =
            Inr (array_sort (\<lambda>a b. sortByDuration (objs a) (objs b)) events, h3) \<and>
      pass_inv objs (array_sort (\<lambda>a b. sortByDuration (objs a) (objs b)) events) {} h2 \<and>
      grows (init_pass objs events h) h2 \<and> regeom h2 h3 \<and>
      (\<forall>r\<in>set events. collisions (h2 r) = [] \<longrightarrow> columns (h3 r) = columns (h2 r))"
  using layOutDay_same [OF valid_input_distinct [OF assms]] .

text \<open>
  C2, as amended. For events with unique ids and \<open>start < end\<close>, laid out with the
  module-level name \<open>events\<close> bound to the array passed, \<open>layOutDay\<close> returns the
  events passed, and every one of them with fewer than two collisions has a position of
  at most 1.
\<close>

theorem degenerate_collapse:
  assumes "valid_input objs events"
  shows "\<exists>out h'. layOutDay objs SameArray events h = Inr (out, h') \<and>
     mset out = mset events \<and>
     (\<forall>r\<in>set events. length (collisions (h' r)) < 2 \<longrightarrow> position (h' r) \<le> 1)"
proof -
  let ?G = "array_sort (\<lambda>a b. sortByDuration (objs a) (objs b)) events"
  from layOutDay_same_input [OF assms] obtain h2 h3 where
    r: "layOutDay objs SameArray events h = Inr (?G, h3)" and I: "pass_inv objs ?G {} h2"
    and g: "regeom h2 h3" by blast
  have sG: "set ?G = set events" by (rule set_array_sort)
  have "\<forall>r\<in>set events. length (collisions (h3 r)) < 2 \<longrightarrow> position (h3 r) \<le> 1"
  proof (intro ballI impI)
    fix r assume "r \<in> set events" and l: "length (collisions (h3 r)) < 2"
    then have "r \<in> set ?G" using sG by simp
    then obtain a where a: "a < length ?G" "r = ?G ! a" by (auto simp: in_set_conv_nth)
    have "collapsed ?G {} h2" using I by (simp add: pass_inv_def)
    then have "1 < position (h2 r) \<longrightarrow> 2 \<le> length (collisions (h2 r))"
      using a by (simp add: collapsed_def)
    then show "position (h3 r) \<le> 1" using l regeom_fields [OF g, of r] by auto
  qed
  then show ?thesis using r mset_array_sort by blast
qed

theorem degenerate_collapse_witness:
  "valid_input scenario_chain [0, 1, 2] \<and>
   (\<exists>out h'. layOutDay scenario_chain SameArray [0, 1, 2] fresh_store = Inr (out, h') \<and>
     mset out = mset [0, 1, 2] \<and>
     (\<forall>r\<in>set [0, 1, 2]. length (collisions (h' r)) < 2 \<longrightarrow> position (h' r) \<le> 1))"
proof -
  have v: "valid_input scenario_chain [0, 1, 2]"
    by (simp add: valid_input_def scenario_chain_def)
  show ?thesis using v degenerate_collapse [OF v, where h = fresh_store] by blast
qed

text \<open>
  C2 as stated fails: in \<open>scenario_reused\<close>, a valid input laid out while the
  module-level name \<open>events\<close> holds the array of the earlier call, \<open>layOutDay\<close>
  returns object 12 with position 2 and the single collision 1.
\<close>

theorem stale_binding_no_collapse:
  "valid_input scenario_reused [12, 0, 1] \<and>
   second_call = Inr ([12, 0, 1], snd (projr second_call)) \<and>
   collisions (snd (projr second_call) 12) = [1] \<and>
   position (snd (projr second_call) 12) = 2"
  by (simp add: second_call_def first_call_def run_defs scenario_reused_def valid_input_def)

text \<open>
  C4, as amended. Under the conditions of C2 as amended, \<open>layOutDay\<close> returns the
  events passed in the order of the sort, and the collisions are symmetric: for indices
  \<open>i\<close> and \<open>j\<close> of the returned array, \<open>j\<close> is a collision of event \<open>i\<close>
  exactly when \<open>i\<close> is a collision of event \<open>j\<close>.
\<close>

theorem collisions_symmetric:
  assumes "valid_input objs events"
  shows "\<exists>out h'. layOutDay objs SameArray events h = Inr (out, h') \<and>
     out = array_sort (\<lambda>a b. sortByDuration (objs a) (objs b)) events \<and>
     mset out = mset events \<and>
     (\<forall>i<length out. \<forall>j<length out.
        (j \<in> set (collisions (h' (out ! i)))) = (i \<in> set (collisions (h' (out ! j)))))"
proof -
  let ?G = "array_sort (\<lambda>a b. sortByDuration (objs a) (objs b)) events"
  from layOutDay_same_input [OF assms] obtain h2 h3 where
    r: "layOutDay objs SameArray events h = Inr (?G, h3)" and I: "pass_inv objs ?G {} h2"
    and g: "regeom h2 h3" by blast
  have m: "mirrored ?G {} h2" using I by (simp add: pass_inv_def)
  have c: "\<And>r. collisions (h3 r) = collisions (h2 r)" using g by (rule regeom_fields)
  have "\<And>i j. i < length ?G \<Longrightarrow> j < length ?G \<Longrightarrow> j \<in> set (collisions (h2 (?G ! i))) \<Longrightarrow>
     i \<in> set (collisions (h2 (?G ! j)))"
    using m unfolding mirrored_def by blast
  then have "\<forall>i<length ?G. \<forall>j<length ?G.
        (j \<in> set (collisions (h3 (?G ! i)))) = (i \<in> set (collisions (h3 (?G ! j))))"
    unfolding c by blast
  then show ?thesis using r mset_array_sort by blast
qed

theorem collisions_symmetric_witness:
  "valid_input scenario_chain [0, 1, 2] \<and>
   (\<exists>out h'. layOutDay scenario_chain SameArray [0, 1, 2] fresh_store = Inr (out, h') \<and>
     out = array_sort (\<lambda>a b. sortByDuration (scenario_chain a) (scenario_chain b)) [0, 1, 2] \<and>
     mset out = mset [0, 1, 2] \<and>
     (\<forall>i<length out. \<forall>j<length out.
        (j \<in> set (collisions (h' (out ! i)))) = (i \<in> set (collisions (h' (out ! j))))))"
proof -
  have v: "valid_input scenario_chain [0, 1, 2]"
    by (simp add: valid_input_def scenario_chain_def)
  show ?thesis using v collisions_symmetric [OF v, where h = fresh_store] by blast
qed

text \<open>
  C4 as stated fails: in \<open>scenario_stale\<close>, a valid input laid out while the
  module-level name \<open>events\<close> holds the array of the earlier call, the event at index 1
  of the returned array has 0 among its collisions and the event at index 0 does not
  have 1.
\<close>

theorem stale_binding_asymmetric:
  "valid_input scenario_stale [0, 1] \<and>
   later_call = Inr ([0, 1], snd (projr later_call)) \<and>
   0 \<in> set (collisions (snd (projr later_call) 1)) \<and>
   1 \<notin> set (collisions (snd (projr later_call) 0))"
  by (simp add: later_call_def earlier_call_def run_defs scenario_stale_def valid_input_def)

text \<open>
  C5, as amended. Under the conditions of C2 as amended, \<open>layOutDay\<close> returns the
  events passed in the order of the sort; every collision \<open>j\<close> of the event at index
  \<open>i\<close> is an index of the returned array whose interval properly overlaps that of
  \<open>i\<close> (both inequalities strict); and two events of which one ends where the other
  starts have no collision with each other.
\<close>

theorem collisions_overlap:
  assumes "valid_input objs events"
  shows "\<exists>out h'. layOutDay objs SameArray events h = Inr (out, h') \<and>
     out = array_sort (\<lambda>a b. sortByDuration (objs a) (objs b)) events \<and>
     mset out = mset events \<and>
     (\<forall>i<length out. \<forall>j\<in>set (collisions (h' (out ! i))).
        j < length out \<and> start (objs (out ! i)) < end' (objs (out ! j)) \<and>
        end' (objs (out ! i)) > start (objs (out ! j))) \<and>
     (\<forall>i<length out. \<forall>j<length out. end' (objs (out ! i)) = start (objs (out ! j)) \<longrightarrow>
        j \<notin> set (collisions (h' (out ! i))) \<and> i \<notin> set (collisions (h' (out ! j))))"
proof -
  let ?G = "array_sort (\<lambda>a b. sortByDuration (objs a) (objs b)) events"
  from layOutDay_same_input [OF assms] obtain h2 h3 where
    r: "layOutDay objs SameArray events h = Inr (?G, h3)" and I: "pass_inv objs ?G {} h2"
    and g: "regeom h2 h3" by blast
  have s: "sound objs ?G h2" using I by (simp add: pass_inv_def)
  have c: "\<And>r. collisions (h3 r) = collisions (h2 r)" using g by (rule regeom_fields)
  have 1: "\<forall>i<length ?G. \<forall>j\<in>set (collisions (h3 (?G ! i))).
        j < length ?G \<and> start (objs (?G ! i)) < end' (objs (?G ! j)) \<and>
        end' (objs (?G ! i)) > start (objs (?G ! j))"
    using s unfolding c sound_def collide_def by blast
  have 2: "\<forall>i<length ?G. \<forall>j<length ?G. end' (objs (?G ! i)) = start (objs (?G ! j)) \<longrightarrow>
        j \<notin> set (collisions (h3 (?G ! i))) \<and> i \<notin> set (collisions (h3 (?G ! j)))"
  proof (intro allI impI)
    fix i j assume "i < length ?G" "j < length ?G"
      and "end' (objs (?G ! i)) = start (objs (?G ! j))"
    then show "j \<notin> set (collisions (h3 (?G ! i))) \<and> i \<notin> set (collisions (h3 (?G ! j)))"
      using 1 by fastforce
  qed
  show ?thesis using r 1 2 mset_array_sort by blast
qed

lemma scenario_touch_run:
  "\<exists>h'. layOutDay scenario_touch SameArray [0, 1, 2] fresh_store = Inr ([0, 1, 2], h') \<and>
     collisions (h' 0) = [1] \<and> collisions (h' 1) = [0] \<and> collisions (h' 2) = []"
  by (simp add: run_defs scenario_touch_def)

theorem collisions_overlap_witness:
  "valid_input scenario_touch [0, 1, 2] \<and>
   (\<exists>out h'. layOutDay scenario_touch SameArray [0, 1, 2] fresh_store = Inr (out, h') \<and>
     (out = [0, 1, 2] \<and> collisions (h' 0) = [1] \<and> collisions (h' 1) = [0] \<and>
      collisions (h' 2) = []) \<and>
     out = array_sort (\<lambda>a b. sortByDuration (scenario_touch a) (scenario_touch b)) [0, 1, 2] \<and>
     mset out = mset [0, 1, 2] \<and>
     (\<forall>i<length out. \<forall>j\<in>set (collisions (h' (out ! i))).
        j < length out \<and> start (scenario_touch (out ! i)) < end' (scenario_touch (out ! j)) \<and>
        end' (scenario_touch (out ! i)) > start (scenario_touch (out ! j))) \<and>
     (\<forall>i<length out. \<forall>j<length out.
        end' (scenario_touch (out ! i)) = start (scenario_touch (out ! j)) \<longrightarrow>
        j \<notin> set (collisions (h' (out ! i))) \<and> i \<notin> set (collisions (h' (out ! j)))))"
proof -
  have v: "valid_input scenario_touch [0, 1, 2]"
    by (simp add: valid_input_def scenario_touch_def)
  obtain h0 where h0: "layOutDay scenario_touch SameArray [0, 1, 2] fresh_store = Inr ([0, 1, 2], h0)"
    "collisions (h0 0) = [1] \<and> collisions (h0 1) = [0] \<and> collisions (h0 2) = []"
    using scenario_touch_run by blast
  obtain out h' where t: "layOutDay scenario_touch SameArray [0, 1, 2] fresh_store = Inr (out, h')"
    "out = array_sort (\<lambda>a b. sortByDuration (scenario_touch a) (scenario_touch b)) [0, 1, 2] \<and>
     mset out = mset [0, 1, 2] \<and>
     (\<forall>i<length out. \<forall>j\<in>set (collisions (h' (out ! i))).
        j < length out \<and> start (scenario_touch (out ! i)) < end' (scenario_touch (out ! j)) \<and>
        end' (scenario_touch (out ! i)) > start (scenario_touch (out ! j))) \<and>
     (\<forall>i<length out. \<forall>j<length out.
        end' (scenario_touch (out ! i)) = start (scenario_touch (out ! j)) \<longrightarrow>
        j \<notin> set (collisions (h' (out ! i))) \<and> i \<notin> set (collisions (h' (out ! j))))"
    using collisions_overlap [OF v, where h = fresh_store] by blast
  have e: "out = [0, 1, 2]" "h' = h0" using h0(1) t(1) by simp_all
  show ?thesis using v t h0(2) e by blast
qed

text \<open>
  C5 as stated fails: in \<open>scenario_stale\<close>, a valid input laid out while the
  module-level name \<open>events\<close> holds the array of the earlier call, the event at index 1
  of the returned array (70 to 80) has the collisions 0 and 1, and the event at index 0
  (0 to 50) does not overlap it.
\<close>

theorem stale_binding_no_overlap:
  "valid_input scenario_stale [0, 1] \<and>
   later_call = Inr ([0, 1], snd (projr later_call)) \<and>
   collisions (snd (projr later_call) 1) = [0, 1] \<and>
   \<not> (start (scenario_stale 1) < end' (scenario_stale 0) \<and>
      end' (scenario_stale 1) > start (scenario_stale 0))"
  by (simp add: later_call_def earlier_call_def run_defs scenario_stale_def valid_input_def)

text \<open>
  C6, as amended. Under the conditions of C2 as amended, \<open>layOutDay\<close> returns the
  events passed, and every one of them without collisions has position 0 and
  \<open>columns = 1\<close>.
\<close>

theorem isolated_event:
  assumes "valid_input objs events"
  shows "\<exists>out h'. layOutDay objs SameArray events h = Inr (out, h') \<and>
     mset out = mset events \<and>
     (\<forall>r\<in>set events. collisions (h' r) = [] \<longrightarrow> position (h' r) = 0 \<and> columns (h' r) = 1)"
proof -
  let ?G = "array_sort (\<lambda>a b. sortByDuration (objs a) (objs b)) events"
  from layOutDay_same_input [OF assms] obtain h2 h3 where
    r: "layOutDay objs SameArray events h = Inr (?G, h3)" and I: "pass_inv objs ?G {} h2"
    and gr: "grows (init_pass objs events h) h2"
    and g: "regeom h2 h3"
    and k: "\<forall>r\<in>set events. collisions (h2 r) = [] \<longrightarrow> columns (h3 r) = columns (h2 r)" by blast
  have sG: "set ?G = set events" by (rule set_array_sort)
  have "\<forall>r\<in>set events. collisions (h3 r) = [] \<longrightarrow> position (h3 r) = 0 \<and> columns (h3 r) = 1"
  proof (intro ballI impI)
    fix r assume rG: "r \<in> set events" and e: "collisions (h3 r) = []"
    have "r \<in> set ?G" using rG sG by simp
    then obtain a where a: "a < length ?G" "r = ?G ! a" by (auto simp: in_set_conv_nth)
    have e2: "collisions (h2 r) = []" using e regeom_fields(1) [OF g, of r] by simp
    have "lower ?G h2" using I by (simp add: pass_inv_def)
    then have "position (h2 r) = 0" using a e2 lowerD by fastforce
    then have p: "position (h3 r) = 0" using regeom_fields(2) [OF g, of r] by simp
    have "columns (h3 r) = columns (h2 r)" using k rG e2 by blast
    also have "\<dots> = columns (init_pass objs events h r)" using gr by (rule grows_columns)
    also have "\<dots> = 1" using rG by (simp add: init_pass_in init_layout_def)
    finally show "position (h3 r) = 0 \<and> columns (h3 r) = 1" using p by simp
  qed
  then show ?thesis using r mset_array_sort by blast
qed

theorem isolated_event_witness:
  "valid_input scenario_adjacent [0, 1] \<and>
   (\<exists>out h'. layOutDay scenario_adjacent SameArray [0, 1] fresh_store = Inr (out, h') \<and>
     mset out = mset [0, 1] \<and>
     (\<forall>r\<in>set [0, 1]. collisions (h' r) = [] \<longrightarrow> position (h' r) = 0 \<and> columns (h' r) = 1))"
proof -
  have v: "valid_input scenario_adjacent [0, 1]"
    by (simp add: valid_input_def scenario_adjacent_def)
  show ?thesis using v isolated_event [OF v, where h = fresh_store] by blast
qed

text \<open>
  C6 as stated fails: in \<open>scenario_stale\<close>, a valid input laid out while the
  module-level name \<open>events\<close> holds the array of the earlier call, \<open>layOutDay\<close>
  returns object 0 without collisions and with \<open>columns = 3\<close>.
\<close>

theorem stale_binding_isolated_columns:
  "valid_input scenario_stale [0, 1] \<and>
   later_call = Inr ([0, 1], snd (projr later_call)) \<and>
   collisions (snd (projr later_call) 0) = [] \<and>
   columns (snd (projr later_call) 0) = 3"
  by (simp add: later_call_def earlier_call_def run_defs scenario_stale_def valid_input_def)

section \<open>The order of the returned array\<close>

lemma sortByDuration_le:
  "(sortByDuration e1 e2 \<le> 0) = (end' e2 - start e2 \<le> end' e1 - start e1)"
  by (simp add: sortByDuration_def Let_def)

lemma set_insert_by: "set (insert_by cmp x xs) = insert x (set xs)"
  by (induction xs) auto

lemma sorted_insert_by:
  fixes k :: "'a \<Rightarrow> int"
  assumes c: "\<And>x y. (cmp x y \<le> 0) = (k y \<le> k x)"
  shows "sorted_wrt (\<lambda>a b. k b \<le> k a) xs \<Longrightarrow> sorted_wrt (\<lambda>a b. k b \<le> k a) (insert_by cmp x xs)"
proof (induction xs)
  case Nil
  then show ?case by simp
next
  case (Cons y ys)
  show ?case
  proof (cases "cmp x y \<le> 0")
    case True
    then have "k y \<le> k x" by (simp add: c)
    then show ?thesis using True Cons.prems by auto
  next
    case False
    then have "k x \<le> k y" using c [of x y] by simp
    then show ?thesis using False Cons by (auto simp: set_insert_by)
  qed
qed

lemma sorted_array_sort:
  fixes k :: "'a \<Rightarrow> int"
  assumes c: "\<And>x y. (cmp x y \<le> 0) = (k y \<le> k x)"
  shows "sorted_wrt (\<lambda>a b. k b \<le> k a) (array_sort cmp xs)"
  by (induction xs) (auto intro: sorted_insert_by [OF c])

lemma filter_insert_by:
  fixes k :: "'a \<Rightarrow> int"
  assumes c: "\<And>x y. (cmp x y \<le> 0) = (k y \<le> k x)"
  shows "filter (\<lambda>r. k r = d) (insert_by cmp x xs) =
         (if k x = d then x # filter (\<lambda>r. k r = d) xs else filter (\<lambda>r. k r = d) xs)"
proof (induction xs)
  case Nil
  then show ?case by simp
next
  case (Cons y ys)
  show ?case
  proof (cases "cmp x y \<le> 0")
    case True
    then show ?thesis by simp
  next
    case False
    then have "k x < k y" using c [of x y] by simp
    then show ?thesis using False Cons by auto
  qed
qed

lemma filter_array_sort:
  fixes k :: "'a \<Rightarrow> int"
  assumes c: "\<And>x y. (cmp x y \<le> 0) = (k y \<le> k x)"
  shows "filter (\<lambda>r. k r = d) (array_sort cmp xs) = filter (\<lambda>r. k r = d) xs"
  by (induction xs) (auto simp: filter_insert_by [OF c])

text \<open>
  C7. Under the same conditions the array returned is ordered by duration
  (\<open>end - start\<close>), longest first; events of equal duration keep the order they had in
  the array passed (for every duration, the events of that duration come in the same
  order in both); and it holds the same events.
\<close>

theorem returned_order:
  assumes "valid_input objs events"
  shows "\<exists>out h'. layOutDay objs SameArray events h = Inr (out, h') \<and>
     sorted_wrt (\<lambda>a b. end' (objs b) - start (objs b) \<le> end' (objs a) - start (objs a)) out \<and>
     (\<forall>d. filter (\<lambda>r. end' (objs r) - start (objs r) = d) out =
          filter (\<lambda>r. end' (objs r) - start (objs r) = d) events) \<and>
     mset out = mset events"
proof -
  let ?cmp = "\<lambda>a b. sortByDuration (objs a) (objs b)"
  let ?k = "\<lambda>r. end' (objs r) - start (objs r)"
  have c: "\<And>x y. (?cmp x y \<le> 0) = (?k y \<le> ?k x)" by (rule sortByDuration_le)
  from layOutDay_same [OF valid_input_distinct [OF assms]] obtain h3 where
    r: "layOutDay objs SameArray events h = Inr (array_sort ?cmp events, h3)" by blast
  have 1: "sorted_wrt (\<lambda>a b. ?k b \<le> ?k a) (array_sort ?cmp events)"
    using c by (rule sorted_array_sort)
  have 2: "\<forall>d. filter (\<lambda>r. ?k r = d) (array_sort ?cmp events) = filter (\<lambda>r. ?k r = d) events"
    using filter_array_sort [where k = ?k, OF c] by blast
  show ?thesis using r 1 2 mset_array_sort by blast
qed

theorem returned_order_witness:
  "valid_input scenario_chain [2, 0, 1] \<and>
   (\<exists>out h'. layOutDay scenario_chain SameArray [2, 0, 1] fresh_store = Inr (out, h') \<and>
     sorted_wrt (\<lambda>a b. end' (scenario_chain b) - start (scenario_chain b)
                    \<le> end' (scenario_chain a) - start (scenario_chain a)) out \<and>
     (\<forall>d. filter (\<lambda>r. end' (scenario_chain r) - start (scenario_chain r) = d) out =
          filter (\<lambda>r. end' (scenario_chain r) - start (scenario_chain r) = d) [2, 0, 1]) \<and>
     mset out = mset [2, 0, 1])"
  using returned_order [of scenario_chain "[2, 0, 1]" fresh_store]
  by (simp add: valid_input_def scenario_chain_def)

lemma grows_registered:
  "grows h h' \<Longrightarrow> \<forall>r\<in>S. has_registerCollision (h r) \<Longrightarrow> \<forall>r\<in>S. has_registerCollision (h' r)"
  by (simp add: grows_has)

lemma position_step_total:
  assumes "\<forall>r\<in>set G \<union> set events. has_registerCollision (h r)" and "e < length events"
  shows "\<exists>h'. position_step objs (Some G) events e h = Inr h' \<and>
              (\<forall>r\<in>set G \<union> set events. has_registerCollision (h' r))"
proof -
  have "has_registerCollision (h (events ! e))" using assms by simp
  moreover have "\<forall>r\<in>set G. has_registerCollision (h r)" using assms by simp
  ultimately obtain h1 where h1: "checkLeft_from objs G (events ! e) e 0 h = Inr h1"
    using checkLeft_from_total by blast
  let ?h' = "if 1 < position (h1 (events ! e)) \<and> length (collisions (h1 (events ! e))) < 2
             then set_position (events ! e) 0 h1 else h1"
  have r: "position_step objs (Some G) events e h = Inr ?h'"
    by (simp add: position_step_def checkLeft_def h1 set_position_same)
  have "grows h h1" using h1 by (rule checkLeft_from_grows)
  moreover have "grows h1 ?h'" by (simp add: grows_refl grows_set_position)
  ultimately have "grows h ?h'" by (rule grows_trans)
  then have "\<forall>r\<in>set G \<union> set events. has_registerCollision (?h' r)"
    using assms(1) by (rule grows_registered)
  then show ?thesis using r by blast
qed

text \<open>
  C10. The recursive search ends on every batch, and so on those in which each id first
  occurs at or before the event's own index: whenever the loop at counter \<open>i\<close> makes
  the recursive call, the scan of that call stops at or before \<open>i\<close>, and \<open>i\<close> is
  before the index where the caller's scan stops (the measure of the termination proof of
  \<open>checkLeft_from\<close>). When all objects have the method \<open>registerCollision\<close>, as
  they do after the first loop, every call of \<open>checkLeft\<close> of the second loop returns
  a position and the second loop returns a store.
\<close>

theorem checkLeft_terminates:
  assumes "registered (G @ events) h"
  shows "(\<forall>ev i. i < length G \<and> id' (objs (G ! i)) \<noteq> id' (objs ev) \<longrightarrow>
            scan_stop objs G (G ! i) 0 \<le> i \<and> i < scan_stop objs G ev i) \<and>
         (\<forall>e<length events. \<exists>p h'. checkLeft objs (Some G) (events ! e) e h = Inr (p, h')) \<and>
         (\<exists>h'. for_each [0..<length events] (position_step objs (Some G) events) h = Inr h')"
proof (intro conjI allI impI)
  fix ev i assume a: "i < length G \<and> id' (objs (G ! i)) \<noteq> id' (objs ev)"
  show "scan_stop objs G (G ! i) 0 \<le> i" using a by (simp add: scan_stop_self)
  have "Suc i \<le> scan_stop objs G ev (Suc i)" by (rule scan_stop_ge)
  then show "i < scan_stop objs G ev i" using a scan_stop_step [of i G objs ev] by simp
next
  fix e assume e: "e < length events"
  have "has_registerCollision (h (events ! e))" using assms e by (simp add: registered_def)
  moreover have "\<forall>r\<in>set G. has_registerCollision (h r)"
    using assms by (simp add: registered_def)
  ultimately obtain h1 where "checkLeft_from objs G (events ! e) e 0 h = Inr h1"
    using checkLeft_from_total by blast
  then show "\<exists>p h'. checkLeft objs (Some G) (events ! e) e h = Inr (p, h')"
    by (simp add: checkLeft_def)
next
  have "\<exists>h'. for_each [0..<length events] (position_step objs (Some G) events) h = Inr h' \<and>
          (\<forall>r\<in>set G \<union> set events. has_registerCollision (h' r))"
  proof (rule for_each_invariant)
    show "\<forall>r\<in>set G \<union> set events. has_registerCollision (h r)"
      using assms by (simp add: registered_def)
  next
    fix x and h0 :: store assume "x \<in> set [0..<length events]"
      and "\<forall>r\<in>set G \<union> set events. has_registerCollision (h0 r)"
    then show "\<exists>h'. position_step objs (Some G) events x h0 = Inr h' \<and>
          (\<forall>r\<in>set G \<union> set events. has_registerCollision (h' r))"
      using position_step_total by simp
  qed
  then show "\<exists>h'. for_each [0..<length events] (position_step objs (Some G) events) h = Inr h'"
    by blast
qed

theorem checkLeft_terminates_witness:
  "registered ([0, 1, 2] @ [0, 1, 2]) (init_pass scenario_chain [0, 1, 2] fresh_store) \<and>
   scan_stop scenario_chain [0, 1, 2] ([0, 1, 2] ! 1) 0 \<le> 1 \<and>
   1 < scan_stop scenario_chain [0, 1, 2] 2 1 \<and>
   (\<exists>p h'. checkLeft scenario_chain (Some [0, 1, 2]) ([0, 1, 2] ! 2) 2
         (init_pass scenario_chain [0, 1, 2] fresh_store) = Inr (p, h')) \<and>
   (\<exists>h'. for_each [0..<length [0, 1, 2::nat]]
            (position_step scenario_chain (Some [0, 1, 2]) [0, 1, 2])
            (init_pass scenario_chain [0, 1, 2] fresh_store) = Inr h')"
proof -
  have h: "registered ([0, 1, 2] @ [0, 1, 2]) (init_pass scenario_chain [0, 1, 2] fresh_store)"
    by (simp add: registered_def init_pass_def init_layout_def)
  note t = checkLeft_terminates [OF h, where objs = scenario_chain]
  have p: "1 < length [0, 1, 2::nat] \<and>
     id' (scenario_chain ([0, 1, 2] ! 1)) \<noteq> id' (scenario_chain 2)"
    by (simp add: scenario_chain_def)
  have a: "scan_stop scenario_chain [0, 1, 2] ([0, 1, 2] ! 1) 0 \<le> 1 \<and>
     1 < scan_stop scenario_chain [0, 1, 2] 2 1"
    using t p by blast
  have q: "2 < length [0, 1, 2::nat]" by simp
  have b: "\<exists>p h'. checkLeft scenario_chain (Some [0, 1, 2]) ([0, 1, 2] ! 2) 2
         (init_pass scenario_chain [0, 1, 2] fresh_store) = Inr (p, h')"
    using t q by blast
  show ?thesis using h a b t by blast
qed

section \<open>The column that the search resolves\<close>

lemma last_candidates_less:
  "candidates_from objs G k i \<noteq> [] \<Longrightarrow> last (candidates_from objs G k i) < k"
proof -
  assume a: "candidates_from objs G k i \<noteq> []"
  then have "last (candidates_from objs G k i) \<in> set (candidates_from objs G k i)"
    by (rule last_in_set)
  then show ?thesis by (simp add: candidates_from_def)
qed

termination resolved
  by (relation "measure (\<lambda>(objs, G, k). k)") (auto simp: last_candidates_less)

declare resolved.simps [simp del]

lemma candidates_from_hit:
  "i < k \<Longrightarrow> collide (objs (G ! k)) (objs (G ! i)) \<Longrightarrow>
   candidates_from objs G k i = i # candidates_from objs G k (Suc i)"
  by (simp add: candidates_from_def upt_conv_Cons)

lemma candidates_from_miss:
  "i < k \<Longrightarrow> \<not> collide (objs (G ! k)) (objs (G ! i)) \<Longrightarrow>
   candidates_from objs G k i = candidates_from objs G k (Suc i)"
  by (simp add: candidates_from_def upt_conv_Cons)

lemma candidates_from_stop: "candidates_from objs G k k = []"
  by (simp add: candidates_from_def)

lemma resolved_scan_state:
  assumes "scan_state objs G h" "i < length G"
  shows "(if candidates_from objs G i 0 = [] then position (h (G ! i))
          else resolved objs G (last (candidates_from objs G i 0)) + 1) = resolved objs G i"
  using assms by (subst (2) resolved.simps) (simp add: scan_state_def)

lemma registerCollision_other:
  "registerCollision r i h = Inr h1 \<Longrightarrow> x \<noteq> r \<Longrightarrow> h1 x = h x"
  by (erule registerCollision_cases) auto

lemma scan_state_register:
  "scan_state objs G h \<Longrightarrow> registerCollision r i h = Inr h1 \<Longrightarrow> scan_state objs G h1"
  by (simp add: scan_state_def registerCollision_has registerCollision_position)

lemma unique_ids_nth:
  assumes "distinct (map (\<lambda>r. id' (objs r)) G)" "i < length G" "k < length G"
  shows "(id' (objs (G ! i)) = id' (objs (G ! k))) = (i = k)"
proof -
  have "(map (\<lambda>r. id' (objs r)) G ! i = map (\<lambda>r. id' (objs r)) G ! k) = (i = k)"
    using assms by (intro nth_eq_iff_index_eq) auto
  then show ?thesis using assms by simp
qed

lemma checkLeft_from_resolved:
  assumes u: "distinct (map (\<lambda>r. id' (objs r)) G)"
  shows "k < length G \<Longrightarrow> i \<le> k \<Longrightarrow> scan_state objs G h \<Longrightarrow>
         checkLeft_from objs G (G ! k) k i h = Inr h' \<Longrightarrow>
         scan_state objs G h' \<and> (\<forall>m<length G. k < m \<longrightarrow> h' (G ! m) = h (G ! m)) \<and>
         position (h' (G ! k)) =
           (if candidates_from objs G k i = [] then position (h (G ! k))
            else resolved objs G (last (candidates_from objs G k i)) + 1)"
proof (induction k arbitrary: i h h' rule: less_induct)
  case (less k)
  note outer = less.IH
  have d: "distinct G" using u by (simp add: distinct_map)
  note N = nth_eq_iff_index_eq [OF d]
  from less.prems show ?case
  proof (induction "k - i" arbitrary: i h rule: less_induct)
    case inner: less
    note kn = inner.prems(1) and ik' = inner.prems(2) and st = inner.prems(3)
    from inner.prems(4) show ?case
    proof (cases rule: checkLeft_from_cases)
      case stop
      have "i < length G" using kn ik' by simp
      then have "i = k" using stop(1) unique_ids_nth [OF u _ kn] by blast
      then show ?thesis using stop(2) st by (simp add: candidates_from_stop)
    next
      case (hit h1 h2 h4)
      have ik: "i < k" using hit(2) ik' by (cases "i = k") auto
      have il: "i < length G" using ik kn by simp
      have s1: "scan_state objs G h1" using st hit(4) by (rule scan_state_register)
      note o = outer [OF ik il le0 s1 hit(5)]
      have s2: "scan_state objs G h2" using o by simp
      have p2: "position (h2 (G ! i)) = resolved objs G i"
        using o resolved_scan_state [OF s1 il] by simp
      let ?h3 = "set_position (G ! k) (position (h2 (G ! i)) + 1) h2"
      have ck: "candidates_from objs G k 0 \<noteq> []"
      proof -
        have "i \<in> set (candidates_from objs G k 0)"
          using ik hit(3) by (simp add: candidates_from_def)
        then show ?thesis by auto
      qed
      have s4: "scan_state objs G h4"
        unfolding scan_state_def
      proof (intro conjI ballI allI impI)
        fix r assume "r \<in> set G"
        then show "has_registerCollision (h4 r)"
          using s2 by (simp add: scan_state_def registerCollision_has [OF hit(6)])
      next
        fix a assume a: "a < length G" "candidates_from objs G a 0 = []"
        then have "a \<noteq> k" using ck by auto
        then have "G ! a \<noteq> G ! k" using a(1) kn by (simp add: N)
        then have "position (h4 (G ! a)) = position (h2 (G ! a))"
          by (simp add: registerCollision_position [OF hit(6)] set_position_position)
        then show "position (h4 (G ! a)) = 0" using s2 a by (simp add: scan_state_def)
      qed
      have n: "k - (i + 1) < k - i" "i + 1 \<le> k" using ik by simp_all
      note j = inner.hyps [OF n(1) kn n(2) s4 hit(7)]
      have "G ! k \<noteq> G ! i" using ik il kn by (simp add: N)
      then have p4: "position (h4 (G ! k)) = resolved objs G i + 1"
        by (simp add: registerCollision_position [OF hit(6)] set_position_position p2)
      have f: "h4 (G ! m) = h (G ! m)" if m: "m < length G" "k < m" for m
      proof -
        have mk: "G ! m \<noteq> G ! k" and mi: "G ! m \<noteq> G ! i"
          using m ik il kn by (simp_all add: N)
        have "h4 (G ! m) = ?h3 (G ! m)" using hit(6) mi by (rule registerCollision_other)
        also have "\<dots> = h2 (G ! m)" using mk by (simp add: set_position_def)
        also have "\<dots> = h1 (G ! m)" using o m ik by simp
        also have "\<dots> = h (G ! m)" using hit(4) mk by (rule registerCollision_other)
        finally show ?thesis .
      qed
      have c: "candidates_from objs G k i = i # candidates_from objs G k (Suc i)"
        using ik hit(3) by (rule candidates_from_hit)
      show ?thesis using j f p4 by (simp add: c)
    next
      case miss
      have ik: "i < k" using miss(2) ik' by (cases "i = k") auto
      have n: "k - (i + 1) < k - i" "i + 1 \<le> k" using ik by simp_all
      note j = inner.hyps [OF n(1) kn n(2) st miss(4)]
      have c: "candidates_from objs G k i = candidates_from objs G k (Suc i)"
        using ik miss(3) by (rule candidates_from_miss)
      show ?thesis using j by (simp add: c)
    qed
  qed
qed

lemma checkLeft_resolved:
  assumes u: "distinct (map (\<lambda>r. id' (objs r)) G)" and k: "k < length G"
    and s: "scan_state objs G h"
  shows "\<exists>h'. checkLeft objs (Some G) (G ! k) k h = Inr (resolved objs G k, h') \<and>
              scan_state objs G h'"
proof -
  have "\<forall>r\<in>set G. has_registerCollision (h r)" using s by (simp add: scan_state_def)
  moreover from this have "has_registerCollision (h (G ! k))" using k by simp
  ultimately obtain h' where h': "checkLeft_from objs G (G ! k) k 0 h = Inr h'"
    using checkLeft_from_total by blast
  note r = checkLeft_from_resolved [OF u k le0 s h']
  have "position (h' (G ! k)) = resolved objs G k"
    using r resolved_scan_state [OF s k] by simp
  then show ?thesis using h' r by (simp add: checkLeft_def)
qed

lemma scan_state_init:
  assumes "set G = set events"
  shows "scan_state objs G (init_pass objs events h)"
proof -
  have r: "\<And>r. r \<in> set G \<Longrightarrow> init_pass objs events h r = init_layout (objs r)"
    using assms by (simp add: init_pass_in)
  have "\<And>a. a < length G \<Longrightarrow> init_pass objs events h (G ! a) = init_layout (objs (G ! a))"
    by (rule r) simp
  then show ?thesis using r by (simp add: scan_state_def init_layout_def)
qed

lemma position_step_scan_state:
  assumes u: "distinct (map (\<lambda>r. id' (objs r)) G)" and e: "e < length G"
    and s: "scan_state objs G h" and r: "position_step objs (Some G) G e h = Inr h'"
  shows "scan_state objs G h'"
proof -
  obtain h1 where h1: "checkLeft objs (Some G) (G ! e) e h = Inr (resolved objs G e, h1)"
    "scan_state objs G h1" using checkLeft_resolved [OF u e s] by blast
  have "h' = h1 \<or> h' = set_position (G ! e) 0 (set_position (G ! e) (resolved objs G e) h1)"
    using r h1(1) by (auto simp: position_step_def Let_def split: if_splits)
        (auto simp: set_position_def checkLeft_def split: sum.splits)
  then show ?thesis
  proof
    assume "h' = h1" then show ?thesis using h1(2) by simp
  next
    assume "h' = set_position (G ! e) 0 (set_position (G ! e) (resolved objs G e) h1)"
    then show ?thesis using h1(2) by (auto simp: scan_state_def set_position_position)
  qed
qed

text \<open>
  C8. With unique ids, when the event at index \<open>e\<close> of the scanned array collides
  with more than one earlier event, the column that \<open>checkLeft\<close> returns for it is
  one more than the column that \<open>checkLeft\<close> returns for the last of these candidates
  in scan order, from whatever stores of the second loop the two calls start.
\<close>

theorem last_candidate_wins:
  assumes "distinct (map (\<lambda>r. id' (objs r)) G)" and "e < length G"
    and "scan_state objs G h" and "scan_state objs G h'"
    and "1 < length (candidates_from objs G e 0)"
  shows "\<exists>v h1 v' h1'.
     checkLeft objs (Some G) (G ! e) e h = Inr (v, h1) \<and>
     checkLeft objs (Some G) (G ! last (candidates_from objs G e 0))
        (last (candidates_from objs G e 0)) h' = Inr (v', h1') \<and>
     v = v' + 1"
proof -
  let ?l = "last (candidates_from objs G e 0)"
  have ne: "candidates_from objs G e 0 \<noteq> []" using assms(5) by auto
  then have "?l < e" by (rule last_candidates_less)
  then have l: "?l < length G" using assms(2) by simp
  obtain h1 where 1: "checkLeft objs (Some G) (G ! e) e h = Inr (resolved objs G e, h1)"
    using checkLeft_resolved [OF assms(1,2,3)] by blast
  obtain h1' where 2: "checkLeft objs (Some G) (G ! ?l) ?l h' = Inr (resolved objs G ?l, h1')"
    using checkLeft_resolved [OF assms(1) l assms(4)] by blast
  have "resolved objs G e = resolved objs G ?l + 1"
    using ne by (subst resolved.simps) simp
  then show ?thesis using 1 2 by blast
qed

theorem last_candidate_wins_witness:
  "distinct (map (\<lambda>r. id' (scenario_last r)) [0, 1, 2, 3, 4]) \<and> 4 < length [0, 1, 2, 3, 4::nat] \<and>
   scan_state scenario_last [0, 1, 2, 3, 4] (init_pass scenario_last [0, 1, 2, 3, 4] fresh_store) \<and>
   1 < length (candidates_from scenario_last [0, 1, 2, 3, 4] 4 0) \<and>
   last (candidates_from scenario_last [0, 1, 2, 3, 4] 4 0) = 3 \<and>
   (\<exists>v h1 v' h1'.
     checkLeft scenario_last (Some [0, 1, 2, 3, 4]) ([0, 1, 2, 3, 4] ! 4) 4
        (init_pass scenario_last [0, 1, 2, 3, 4] fresh_store) = Inr (v, h1) \<and>
     checkLeft scenario_last (Some [0, 1, 2, 3, 4])
        ([0, 1, 2, 3, 4] ! last (candidates_from scenario_last [0, 1, 2, 3, 4] 4 0))
        (last (candidates_from scenario_last [0, 1, 2, 3, 4] 4 0))
        (init_pass scenario_last [0, 1, 2, 3, 4] fresh_store) = Inr (v', h1') \<and>
     v = v' + 1)"
proof -
  have a: "distinct (map (\<lambda>r. id' (scenario_last r)) [0, 1, 2, 3, 4])"
    by (simp add: scenario_last_def)
  have b: "4 < length [0, 1, 2, 3, 4::nat]" by simp
  have c: "scan_state scenario_last [0, 1, 2, 3, 4]
             (init_pass scenario_last [0, 1, 2, 3, 4] fresh_store)"
    by (rule scan_state_init) simp
  have d: "candidates_from scenario_last [0, 1, 2, 3, 4] 4 0 = [0, 1, 2, 3]"
    by (simp add: candidates_from_def scenario_last_def collide_def upt_rec)
  have e: "1 < length (candidates_from scenario_last [0, 1, 2, 3, 4] 4 0)"
    unfolding d by simp
  have f: "last (candidates_from scenario_last [0, 1, 2, 3, 4] 4 0) = 3" unfolding d by simp
  show ?thesis using a b c e f last_candidate_wins [OF a b c c e] by blast
qed

text \<open>
  In that scenario the event at index 4 collides with the events at 0, 1, 2 and 3. The
  candidate at 2 resolves to column 2, the last candidate to column 0, and the event
  gets column 1.
\<close>

lemma last_candidate_not_maximum:
  "(\<exists>h1. checkLeft scenario_last (Some [0, 1, 2, 3, 4]) 2 2
        (init_pass scenario_last [0, 1, 2, 3, 4] fresh_store) = Inr (2, h1)) \<and>
   (\<exists>h1. checkLeft scenario_last (Some [0, 1, 2, 3, 4]) 3 3
        (init_pass scenario_last [0, 1, 2, 3, 4] fresh_store) = Inr (0, h1)) \<and>
   (\<exists>h1. checkLeft scenario_last (Some [0, 1, 2, 3, 4]) 4 4
        (init_pass scenario_last [0, 1, 2, 3, 4] fresh_store) = Inr (1, h1))"
  by (simp add: run_defs scenario_last_def)

section \<open>Determinism\<close>

lemma agree_update:
  assumes "distinct G1" "distinct G2" "length G1 = length G2" "k < length G1"
    and "agree G1 G2 h1 h2"
  shows "agree G1 G2 (h1(G1 ! k := v)) (h2(G2 ! k := v))"
  using assms by (simp add: agree_def nth_eq_iff_index_eq)

lemma agreeD: "agree G1 G2 h1 h2 \<Longrightarrow> a < length G1 \<Longrightarrow> h1 (G1 ! a) = h2 (G2 ! a)"
  by (simp add: agree_def)

lemma agree_register:
  assumes d: "distinct G1" "distinct G2" "length G1 = length G2" and k: "k < length G1"
    and a: "agree G1 G2 h1 h2" and r: "registerCollision (G1 ! k) i h1 = Inr h1'"
  shows "\<exists>h2'. registerCollision (G2 ! k) i h2 = Inr h2' \<and> agree G1 G2 h1' h2'"
proof -
  have e: "h1 (G1 ! k) = h2 (G2 ! k)" using a k by (rule agreeD)
  from r show ?thesis
  proof (cases rule: registerCollision_cases)
    case old
    then have "registerCollision (G2 ! k) i h2 = Inr h2"
      using e by (simp add: registerCollision_def)
    then show ?thesis using a old by blast
  next
    case new
    let ?h2' = "h2(G2 ! k := (h2 (G2 ! k))\<lparr>collisions := collisions (h2 (G2 ! k)) @ [i]\<rparr>)"
    have "registerCollision (G2 ! k) i h2 = Inr ?h2'"
      using new e by (simp add: registerCollision_def)
    moreover have "agree G1 G2 h1' ?h2'"
      unfolding new(3) e using d k a by (rule agree_update)
    ultimately show ?thesis by blast
  qed
qed

lemma agree_set_position:
  assumes "distinct G1" "distinct G2" "length G1 = length G2" "k < length G1"
    and "agree G1 G2 h1 h2"
  shows "agree G1 G2 (set_position (G1 ! k) p h1) (set_position (G2 ! k) p h2)"
  unfolding set_position_def agreeD [OF assms(5,4)] using assms by (rule agree_update)

lemma checkLeft_from_agree:
  assumes d: "distinct G1" "distinct G2" "length G1 = length G2"
    and o: "\<forall>a<length G1. objs1 (G1 ! a) = objs2 (G2 ! a)"
  shows "k < length G1 \<Longrightarrow> i \<le> k \<Longrightarrow> agree G1 G2 h1 h2 \<Longrightarrow>
         checkLeft_from objs1 G1 (G1 ! k) k i h1 = Inr h1' \<Longrightarrow>
         \<exists>h2'. checkLeft_from objs2 G2 (G2 ! k) k i h2 = Inr h2' \<and> agree G1 G2 h1' h2'"
proof (induction k arbitrary: i h1 h2 h1' rule: less_induct)
  case (less k)
  note outer = less.IH
  from less.prems show ?case
  proof (induction "k - i" arbitrary: i h1 h2 rule: less_induct)
    case inner: less
    note kn = inner.prems(1) and ik' = inner.prems(2) and ag = inner.prems(3)
    have il: "i < length G1" using kn ik' by simp
    have il2: "i < length G2" using il d(3) by simp
    have oi: "objs1 (G1 ! i) = objs2 (G2 ! i)" and ok: "objs1 (G1 ! k) = objs2 (G2 ! k)"
      using o il kn by simp_all
    from inner.prems(4) show ?case
    proof (cases rule: checkLeft_from_cases)
      case stop
      then have "id' (objs2 (G2 ! i)) = id' (objs2 (G2 ! k))" using il oi ok by simp
      then have "checkLeft_from objs2 G2 (G2 ! k) k i h2 = Inr h2"
        by (subst checkLeft_from.simps) simp
      then show ?thesis using stop(2) ag by blast
    next
      case (hit h1a h1b h1d)
      have ik: "i < k" using hit(2) ik' by (cases "i = k") auto
      have n: "k - (i + 1) < k - i" "i + 1 \<le> k" using ik by simp_all
      obtain h2a where a: "registerCollision (G2 ! k) i h2 = Inr h2a" "agree G1 G2 h1a h2a"
        using agree_register [OF d kn ag hit(4)] by blast
      obtain h2b where b: "checkLeft_from objs2 G2 (G2 ! i) i 0 h2a = Inr h2b"
        "agree G1 G2 h1b h2b"
        using outer [OF ik il le0 a(2) hit(5)] by blast
      let ?h1c = "set_position (G1 ! k) (position (h1b (G1 ! i)) + 1) h1b"
      let ?h2c = "set_position (G2 ! k) (position (h2b (G2 ! i)) + 1) h2b"
      have c: "agree G1 G2 ?h1c ?h2c"
        unfolding agreeD [OF b(2) il] using d kn b(2) by (rule agree_set_position)
      obtain h2d where dd: "registerCollision (G2 ! i) k ?h2c = Inr h2d" "agree G1 G2 h1d h2d"
        using agree_register [OF d il c hit(6)] by blast
      obtain h2' where e: "checkLeft_from objs2 G2 (G2 ! k) k (i + 1) h2d = Inr h2'"
        "agree G1 G2 h1' h2'"
        using inner.hyps [OF n(1) kn n(2) dd(2) hit(7)] by blast
      have "checkLeft_from objs2 G2 (G2 ! k) k i h2 = Inr h2'"
        using il2 hit(2,3) oi ok a(1) b(1) dd(1) e(1)
        by (subst checkLeft_from.simps) simp
      then show ?thesis using e(2) by blast
    next
      case miss
      have ik: "i < k" using miss(2) ik' by (cases "i = k") auto
      have n: "k - (i + 1) < k - i" "i + 1 \<le> k" using ik by simp_all
      obtain h2' where e: "checkLeft_from objs2 G2 (G2 ! k) k (i + 1) h2 = Inr h2'"
        "agree G1 G2 h1' h2'"
        using inner.hyps [OF n(1) kn n(2) ag miss(4)] by blast
      have "checkLeft_from objs2 G2 (G2 ! k) k i h2 = Inr h2'"
        using il2 miss(2,3) oi ok e(1) by (subst checkLeft_from.simps) simp
      then show ?thesis using e(2) by blast
    qed
  qed
qed

lemma position_step_agree:
  assumes d: "distinct G1" "distinct G2" "length G1 = length G2"
    and o: "\<forall>a<length G1. objs1 (G1 ! a) = objs2 (G2 ! a)"
    and e: "e < length G1" and a: "agree G1 G2 h1 h2"
    and r: "position_step objs1 (Some G1) G1 e h1 = Inr h1'"
  shows "\<exists>h2'. position_step objs2 (Some G2) G2 e h2 = Inr h2' \<and> agree G1 G2 h1' h2'"
proof -
  obtain k1 where k1: "checkLeft_from objs1 G1 (G1 ! e) e 0 h1 = Inr k1"
    using r by (auto simp: position_step_def checkLeft_def split: sum.splits)
  obtain k2 where k2: "checkLeft_from objs2 G2 (G2 ! e) e 0 h2 = Inr k2" "agree G1 G2 k1 k2"
    using checkLeft_from_agree [OF d o e le0 a k1] by blast
  let ?c1 = "1 < position (k1 (G1 ! e)) \<and> length (collisions (k1 (G1 ! e))) < 2"
  have h1': "h1' = (if ?c1 then set_position (G1 ! e) 0 k1 else k1)"
    using r by (simp add: position_step_def checkLeft_def k1 set_position_same)
  have r2: "position_step objs2 (Some G2) G2 e h2 =
     Inr (if 1 < position (k2 (G2 ! e)) \<and> length (collisions (k2 (G2 ! e))) < 2
          then set_position (G2 ! e) 0 k2 else k2)"
    by (simp add: position_step_def checkLeft_def k2(1) set_position_same)
  have eq: "k1 (G1 ! e) = k2 (G2 ! e)" using k2(2) e by (rule agreeD)
  have "agree G1 G2 h1' (if 1 < position (k2 (G2 ! e)) \<and> length (collisions (k2 (G2 ! e))) < 2
          then set_position (G2 ! e) 0 k2 else k2)"
    unfolding h1' eq using agree_set_position [OF d e k2(2)] k2(2) by simp
  then show ?thesis using r2 by blast
qed

lemma for_each_agree:
  assumes "\<And>x h1 h2 h1'. x \<in> set xs \<Longrightarrow> R h1 h2 \<Longrightarrow> body1 x h1 = Inr h1' \<Longrightarrow>
             \<exists>h2'. body2 x h2 = Inr h2' \<and> R h1' h2'"
    and "R h1 h2" and "for_each xs body1 h1 = Inr h1'"
  shows "\<exists>h2'. for_each xs body2 h2 = Inr h2' \<and> R h1' h2'"
  using assms
proof (induction xs arbitrary: h1 h2)
  case Nil
  then show ?case by simp
next
  case (Cons x xs)
  from Cons.prems(3) obtain k1 where k1: "body1 x h1 = Inr k1" "for_each xs body1 k1 = Inr h1'"
    by (auto split: sum.splits)
  obtain k2 where k2: "body2 x h2 = Inr k2" "R k1 k2"
    using Cons.prems(1) [OF _ Cons.prems(2) k1(1)] by auto
  have "\<exists>h2'. for_each xs body2 k2 = Inr h2' \<and> R h1' h2'"
    using Cons.prems(1) k2(2) k1(2) by (intro Cons.IH) auto
  then show ?case using k2(1) by simp
qed

lemma columns_step_agree:
  assumes d: "distinct G1" "distinct G2" "length G1 = length G2"
    and e: "e < length G1" and a: "agree G1 G2 h1 h2"
    and r: "columns_step G1 (G1 ! e) c h1 = Inr h1'"
  shows "\<exists>h2'. columns_step G2 (G2 ! e) c h2 = Inr h2' \<and> agree G1 G2 h1' h2'"
proof -
  have c: "c < length G1" using r by (simp add: columns_step_def split: if_splits)
  have ee: "h1 (G1 ! e) = h2 (G2 ! e)" and ec: "h1 (G1 ! c) = h2 (G2 ! c)"
    using a e c by (simp_all add: agreeD)
  let ?v = "(h2 (G2 ! e))\<lparr>columns := max (columns (h2 (G2 ! e))) (position (h2 (G2 ! c)) + 1)\<rparr>"
  let ?k1 = "h1(G1 ! e := ?v)" and ?k2 = "h2(G2 ! e := ?v)"
  have k: "agree G1 G2 ?k1 ?k2" using d e a by (rule agree_update)
  have kc: "?k1 (G1 ! c) = ?k2 (G2 ! c)" using k c by (rule agreeD)
  have ke: "?k1 (G1 ! e) = ?k2 (G2 ! e)" using k e by (rule agreeD)
  have h1': "h1' = ?k1(G1 ! c := (?k1 (G1 ! c))\<lparr>columns := columns (?k1 (G1 ! e))\<rparr>)"
    using r c by (simp add: columns_step_def Let_def ee ec)
  have r2: "columns_step G2 (G2 ! e) c h2 =
      Inr (?k2(G2 ! c := (?k2 (G2 ! c))\<lparr>columns := columns (?k2 (G2 ! e))\<rparr>))"
    using c d(3) by (simp add: columns_step_def Let_def)
  have "agree G1 G2 h1' (?k2(G2 ! c := (?k2 (G2 ! c))\<lparr>columns := columns (?k2 (G2 ! e))\<rparr>))"
    unfolding h1' kc ke using d c k by (rule agree_update)
  then show ?thesis using r2 by blast
qed

lemma geometry_step_agree:
  assumes d: "distinct G1" "distinct G2" "length G1 = length G2"
    and e: "e < length G1" and a: "agree G1 G2 h1 h2"
    and r: "geometry_step G1 e h1 = Inr h1'"
  shows "\<exists>h2'. geometry_step G2 e h2 = Inr h2' \<and> agree G1 G2 h1' h2'"
proof -
  have ee: "h1 (G1 ! e) = h2 (G2 ! e)" using a e by (rule agreeD)
  obtain k1 where k1: "for_each (rev (collisions (h1 (G1 ! e)))) (columns_step G1 (G1 ! e)) h1 = Inr k1"
    using r by (auto simp: geometry_step_def split: sum.splits)
  have "\<exists>k2. for_each (rev (collisions (h1 (G1 ! e)))) (columns_step G2 (G2 ! e)) h2 = Inr k2 \<and>
          agree G1 G2 k1 k2"
    using _ a k1
  proof (rule for_each_agree)
    fix c h1 h2 h1'
    assume "agree G1 G2 h1 h2" "columns_step G1 (G1 ! e) c h1 = Inr h1'"
    then show "\<exists>h2'. columns_step G2 (G2 ! e) c h2 = Inr h2' \<and> agree G1 G2 h1' h2'"
      using columns_step_agree [OF d e] by blast
  qed
  then obtain k2 where k2: "for_each (rev (collisions (h2 (G2 ! e)))) (columns_step G2 (G2 ! e)) h2 = Inr k2"
    "agree G1 G2 k1 k2" using ee by auto
  have ke: "k1 (G1 ! e) = k2 (G2 ! e)" using k2(2) e by (rule agreeD)
  let ?w = "(k2 (G2 ! e))\<lparr>width := 600 div columns (k2 (G2 ! e))\<rparr>"
  let ?m1 = "k1(G1 ! e := ?w)" and ?m2 = "k2(G2 ! e := ?w)"
  have m: "agree G1 G2 ?m1 ?m2" using d e k2(2) by (rule agree_update)
  have me: "?m1 (G1 ! e) = ?m2 (G2 ! e)" by simp
  let ?l = "(?m2 (G2 ! e))\<lparr>left := position (?m2 (G2 ! e)) * width (?m2 (G2 ! e)) + 10\<rparr>"
  have h1': "h1' = ?m1(G1 ! e := ?l)"
    using r by (simp add: geometry_step_def k1 Let_def ke)
  have r2: "geometry_step G2 e h2 = Inr (?m2(G2 ! e := ?l))"
    by (simp add: geometry_step_def k2(1) Let_def)
  have "agree G1 G2 h1' (?m2(G2 ! e := ?l))"
    unfolding h1' using d e m by (rule agree_update)
  then show ?thesis using r2 by blast
qed

lemma map_insert_by:
  "map f (insert_by (\<lambda>a b. c (f a) (f b)) x xs) = insert_by c (f x) (map f xs)"
  by (induction xs) auto

lemma map_array_sort:
  "map f (array_sort (\<lambda>a b. c (f a) (f b)) xs) = array_sort c (map f xs)"
  by (induction xs) (auto simp: map_insert_by)

lemma layOutDay_cases:
  assumes "layOutDay objs SameArray events h = Inr (out, h')"
  shows "\<exists>h2. out = array_sort (\<lambda>a b. sortByDuration (objs a) (objs b)) events \<and>
     for_each [0..<length out] (position_step objs (Some out) out) (init_pass objs events h) = Inr h2 \<and>
     for_each [0..<length out] (geometry_step out) h2 = Inr h'"
  using assms by (auto simp: layOutDay_def global_array_def Let_def split: sum.splits)

lemma agree_init_pass:
  assumes "set G1 = set events1" "set G2 = set events2" "length G1 = length G2"
    and "\<forall>a<length G1. objs1 (G1 ! a) = objs2 (G2 ! a)"
  shows "agree G1 G2 (init_pass objs1 events1 h1) (init_pass objs2 events2 h2)"
  unfolding agree_def
proof (intro allI impI)
  fix a assume a: "a < length G1"
  then have "G1 ! a \<in> set events1" "G2 ! a \<in> set events2" using assms(1,2,3) by auto
  then show "init_pass objs1 events1 h1 (G1 ! a) = init_pass objs2 events2 h2 (G2 ! a)"
    using assms(4) a by (simp add: init_pass_in)
qed

text \<open>
  C9, as amended. Two calls of \<open>layOutDay\<close>, each with the module-level name
  \<open>events\<close> bound to the array passed, on arrays of distinct objects that are equal by
  value (the same \<open>id\<close>, \<open>start\<close> and \<open>end\<close> in the same order), both return, and
  the returned events are equal in order and in every attached field, whatever the two
  stores held before.
\<close>

theorem layOutDay_deterministic:
  assumes v: "map objs1 events1 = map objs2 events2"
    and d1: "distinct events1" and d2: "distinct events2"
  shows "\<exists>out1 h1' out2 h2'.
     layOutDay objs1 SameArray events1 h1 = Inr (out1, h1') \<and>
     layOutDay objs2 SameArray events2 h2 = Inr (out2, h2') \<and>
     map objs1 out1 = map objs2 out2 \<and> map h1' out1 = map h2' out2"
proof -
  let ?G1 = "array_sort (\<lambda>a b. sortByDuration (objs1 a) (objs1 b)) events1"
  let ?G2 = "array_sort (\<lambda>a b. sortByDuration (objs2 a) (objs2 b)) events2"
  obtain h1' where r1: "layOutDay objs1 SameArray events1 h1 = Inr (?G1, h1')"
    using layOutDay_same [OF d1] by blast
  obtain k1 where k1:
    "for_each [0..<length ?G1] (position_step objs1 (Some ?G1) ?G1) (init_pass objs1 events1 h1) = Inr k1"
    "for_each [0..<length ?G1] (geometry_step ?G1) k1 = Inr h1'"
    using layOutDay_cases [OF r1] by blast
  have m: "map objs1 ?G1 = map objs2 ?G2" by (simp add: map_array_sort v)
  have l: "length ?G1 = length ?G2" using m by (rule map_eq_imp_length_eq)
  have o: "\<forall>a<length ?G1. objs1 (?G1 ! a) = objs2 (?G2 ! a)"
  proof (intro allI impI)
    fix a assume a: "a < length ?G1"
    have "map objs1 ?G1 ! a = map objs2 ?G2 ! a" using m by simp
    then show "objs1 (?G1 ! a) = objs2 (?G2 ! a)" using a l by simp
  qed
  have dG: "distinct ?G1" "distinct ?G2" using d1 d2 by (simp_all add: distinct_array_sort)
  have a0: "agree ?G1 ?G2 (init_pass objs1 events1 h1) (init_pass objs2 events2 h2)"
    using set_array_sort set_array_sort l o by (rule agree_init_pass)
  have "\<exists>k2. for_each [0..<length ?G1] (position_step objs2 (Some ?G2) ?G2)
           (init_pass objs2 events2 h2) = Inr k2 \<and> agree ?G1 ?G2 k1 k2"
    using _ a0 k1(1)
  proof (rule for_each_agree)
    fix e and s1 s2 s1' :: store
    assume "e \<in> set [0..<length ?G1]" "agree ?G1 ?G2 s1 s2"
      "position_step objs1 (Some ?G1) ?G1 e s1 = Inr s1'"
    then show "\<exists>s2'. position_step objs2 (Some ?G2) ?G2 e s2 = Inr s2' \<and> agree ?G1 ?G2 s1' s2'"
      using position_step_agree [OF dG l o] by simp
  qed
  then obtain k2 where k2: "for_each [0..<length ?G2] (position_step objs2 (Some ?G2) ?G2)
           (init_pass objs2 events2 h2) = Inr k2" "agree ?G1 ?G2 k1 k2" using l by auto
  have "\<exists>h2'. for_each [0..<length ?G1] (geometry_step ?G2) k2 = Inr h2' \<and> agree ?G1 ?G2 h1' h2'"
    using _ k2(2) k1(2)
  proof (rule for_each_agree)
    fix e and s1 s2 s1' :: store
    assume "e \<in> set [0..<length ?G1]" "agree ?G1 ?G2 s1 s2" "geometry_step ?G1 e s1 = Inr s1'"
    then show "\<exists>s2'. geometry_step ?G2 e s2 = Inr s2' \<and> agree ?G1 ?G2 s1' s2'"
      using geometry_step_agree [OF dG l] by simp
  qed
  then obtain h2' where h2': "for_each [0..<length ?G2] (geometry_step ?G2) k2 = Inr h2'"
    "agree ?G1 ?G2 h1' h2'" using l by auto
  have r2: "layOutDay objs2 SameArray events2 h2 = Inr (?G2, h2')"
    by (simp add: layOutDay_def global_array_def Let_def k2(1) h2'(1))
  have "map h1' ?G1 = map h2' ?G2"
    using l h2'(2) by (auto simp: list_eq_iff_nth_eq agree_def)
  then show ?thesis using r1 r2 m by blast
qed

theorem layOutDay_deterministic_witness:
  "map scenario_chain [0, 1, 2] = map scenario_chain_copy [5, 6, 7] \<and>
   distinct [0, 1, 2::nat] \<and> distinct [5, 6, 7::nat] \<and>
   (\<exists>out1 h1' out2 h2'.
     layOutDay scenario_chain SameArray [0, 1, 2] fresh_store = Inr (out1, h1') \<and>
     layOutDay scenario_chain_copy SameArray [5, 6, 7]
        (init_pass scenario2 [0, 1] fresh_store) = Inr (out2, h2') \<and>
     map scenario_chain out1 = map scenario_chain_copy out2 \<and> map h1' out1 = map h2' out2)"
proof -
  have a: "map scenario_chain [0, 1, 2] = map scenario_chain_copy [5, 6, 7]"
    by (simp add: scenario_chain_copy_def)
  have b: "distinct [0, 1, 2::nat]" and c: "distinct [5, 6, 7::nat]" by simp_all
  show ?thesis using a b c layOutDay_deterministic [OF a b c] by blast
qed

lemma second_event_column:
  "\<exists>h'. layOutDay scenario2 SameArray [0, 1] h = Inr ([0, 1], h') \<and> position (h' 1) = 1"
  by (simp add: run_defs scenario2_def)

text \<open>
  C9 as stated fails: on the two fully overlapping events, a call with the module-level
  name \<open>events\<close> bound to the array passed and a call with it bound to an empty
  array give different results (the second registers no collision).
\<close>

theorem layOutDay_reads_module_events:
  "layOutDay scenario2 SameArray [0, 1] fresh_store \<noteq>
   layOutDay scenario2 (OtherArray []) [0, 1] fresh_store"
proof
  assume e: "layOutDay scenario2 SameArray [0, 1] fresh_store =
             layOutDay scenario2 (OtherArray []) [0, 1] fresh_store"
  obtain ha where a: "layOutDay scenario2 SameArray [0, 1] fresh_store = Inr ([0, 1], ha)"
    "position (ha 1) = 1"
    using second_event_column [of fresh_store] by blast
  have "\<exists>hb. layOutDay scenario2 (OtherArray []) [0, 1] fresh_store = Inr ([0, 1], hb) \<and>
     position (hb 1) = 0"
    by (simp add: run_defs scenario2_def)
  then obtain hb where b: "layOutDay scenario2 (OtherArray []) [0, 1] fresh_store = Inr ([0, 1], hb)"
    "position (hb 1) = 0" by blast
  have "ha = hb" using e a(1) b(1) by simp
  then show False using a(2) b(2) by simp
qed

section \<open>The column count is positive\<close>

text \<open>
  Throughout the third loop \<open>columns\<close> is at least 1 for every event of the array,
  in particular where the width is computed.
\<close>

lemma columns_step_positive:
  assumes "\<forall>r\<in>set events. 1 \<le> columns (h r)" and "ev \<in> set events"
    and "columns_step events ev c h = Inr h'"
  shows "\<forall>r\<in>set events. 1 \<le> columns (h' r)"
proof -
  have c: "c < length events" using assms(3) by (simp add: columns_step_def split: if_splits)
  let ?h1 = "h(ev := (h ev)\<lparr>columns := max (columns (h ev)) (position (h (events ! c)) + 1)\<rparr>)"
  have h': "h' = ?h1(events ! c := (?h1 (events ! c))\<lparr>columns := columns (?h1 ev)\<rparr>)"
    using assms(3) c by (simp add: columns_step_def Let_def)
  have 1: "\<forall>r\<in>set events. 1 \<le> columns (?h1 r)" using assms(1,2) by auto
  then have 2: "1 \<le> columns (?h1 ev)" using assms(2) by blast
  show ?thesis
  proof
    fix r assume r: "r \<in> set events"
    show "1 \<le> columns (h' r)"
    proof (cases "r = events ! c")
      case True
      then have "columns (h' r) = columns (?h1 ev)" unfolding h' by simp
      then show ?thesis using 2 by simp
    next
      case False
      then have "h' r = ?h1 r" unfolding h' by simp
      then show ?thesis using 1 r by simp
    qed
  qed
qed

lemma columns_loop_positive:
  "\<forall>r\<in>set events. 1 \<le> columns (h r) \<Longrightarrow> ev \<in> set events \<Longrightarrow>
   for_each cs (columns_step events ev) h = Inr h' \<Longrightarrow> \<forall>r\<in>set events. 1 \<le> columns (h' r)"
proof (induction cs arbitrary: h)
  case Nil
  then show ?case by simp
next
  case (Cons c cs)
  from Cons.prems(3) obtain h1 where h1: "columns_step events ev c h = Inr h1"
    "for_each cs (columns_step events ev) h1 = Inr h'" by (auto split: sum.splits)
  have "\<forall>r\<in>set events. 1 \<le> columns (h1 r)"
    using Cons.prems(1,2) h1(1) by (rule columns_step_positive)
  then show ?case using Cons.prems(2) h1(2) by (rule Cons.IH)
qed

lemma geometry_step_positive:
  assumes p: "\<forall>r\<in>set events. 1 \<le> columns (h r)" and e: "e < length events"
    and r: "geometry_step events e h = Inr h'"
  shows "\<exists>h1. for_each (rev (collisions (h (events ! e)))) (columns_step events (events ! e)) h
            = Inr h1 \<and> 1 \<le> columns (h1 (events ! e)) \<and>
          width (h' (events ! e)) = 600 div columns (h1 (events ! e)) \<and>
          (\<forall>r\<in>set events. 1 \<le> columns (h' r))"
proof -
  let ?ev = "events ! e"
  obtain h1 where h1: "for_each (rev (collisions (h ?ev))) (columns_step events ?ev) h = Inr h1"
    using r by (auto simp: geometry_step_def split: sum.splits)
  have ev: "?ev \<in> set events" using e by simp
  have p1: "\<forall>r\<in>set events. 1 \<le> columns (h1 r)" using p ev h1 by (rule columns_loop_positive)
  let ?h2 = "h1(?ev := (h1 ?ev)\<lparr>width := 600 div columns (h1 ?ev)\<rparr>)"
  have h': "h' = ?h2(?ev := (?h2 ?ev)\<lparr>left := position (?h2 ?ev) * width (?h2 ?ev) + 10\<rparr>)"
    using r by (simp add: geometry_step_def h1 Let_def)
  have "\<forall>r\<in>set events. 1 \<le> columns (h' r)" unfolding h' using p1 by simp
  moreover have "width (h' ?ev) = 600 div columns (h1 ?ev)" unfolding h' by simp
  ultimately show ?thesis using h1 p1 ev by blast
qed

lemma for_each_preserves:
  assumes "\<And>x h h'. x \<in> set xs \<Longrightarrow> J h \<Longrightarrow> body x h = Inr h' \<Longrightarrow> J h'"
    and "J h" and "for_each xs body h = Inr h'"
  shows "J h'"
  using assms
proof (induction xs arbitrary: h)
  case Nil
  then show ?case by simp
next
  case (Cons x xs)
  from Cons.prems(3) obtain h1 where h1: "body x h = Inr h1" "for_each xs body h1 = Inr h'"
    by (auto split: sum.splits)
  have "J h1" using Cons.prems(1) [OF _ Cons.prems(2) h1(1)] by simp
  then show ?case using Cons.prems(1) h1(2) by (intro Cons.IH [of h1]) auto
qed

lemma position_step_grows:
  assumes "position_step objs (Some G) events e h = Inr h'"
  shows "grows h h'"
proof -
  obtain h1 where h1: "checkLeft_from objs G (events ! e) e 0 h = Inr h1"
    using assms by (auto simp: position_step_def checkLeft_def split: sum.splits)
  have "h' = (if 1 < position (h1 (events ! e)) \<and> length (collisions (h1 (events ! e))) < 2
              then set_position (events ! e) 0 h1 else h1)"
    using assms by (simp add: position_step_def checkLeft_def h1 set_position_same)
  then have "grows h1 h'" by (simp add: grows_refl grows_set_position)
  with checkLeft_from_grows [OF h1] show ?thesis by (rule grows_trans)
qed

lemma layOutDay_columns_positive:
  assumes "distinct events"
  shows "\<exists>out h'. layOutDay objs SameArray events h = Inr (out, h') \<and>
           (\<forall>r\<in>set out. 1 \<le> columns (h' r))"
proof -
  let ?G = "array_sort (\<lambda>a b. sortByDuration (objs a) (objs b)) events"
  obtain h2a h3 where r: "layOutDay objs SameArray events h = Inr (?G, h3)"
    and g: "grows (init_pass objs events h) h2a"
    and I: "pass_inv objs ?G {} h2a"
    using layOutDay_same [OF assms] by blast
  obtain h2 where h2:
    "for_each [0..<length ?G] (position_step objs (Some ?G) ?G) (init_pass objs events h) = Inr h2"
    "for_each [0..<length ?G] (geometry_step ?G) h2 = Inr h3"
    using layOutDay_cases [OF r] by blast
  have sG: "set ?G = set events" by (rule set_array_sort)
  have "grows (init_pass objs events h) h2"
    using _ grows_refl h2(1)
  proof (rule for_each_preserves)
    fix x and k k' :: store
    assume "grows (init_pass objs events h) k" "position_step objs (Some ?G) ?G x k = Inr k'"
    moreover from this(2) have "grows k k'" by (rule position_step_grows)
    ultimately show "grows (init_pass objs events h) k'" by (blast intro: grows_trans)
  qed
  then have p2: "\<forall>r\<in>set ?G. 1 \<le> columns (h2 r)"
    using sG by (simp add: grows_columns init_pass_in init_layout_def)
  have "\<forall>r\<in>set ?G. 1 \<le> columns (h3 r)"
    using _ p2 h2(2)
  proof (rule for_each_preserves)
    fix x and k k' :: store
    assume "x \<in> set [0..<length ?G]" "\<forall>r\<in>set ?G. 1 \<le> columns (k r)"
      "geometry_step ?G x k = Inr k'"
    then have "x < length ?G" "\<forall>r\<in>set ?G. 1 \<le> columns (k r)"
      "geometry_step ?G x k = Inr k'" by simp_all
    then show "\<forall>r\<in>set ?G. 1 \<le> columns (k' r)"
      using geometry_step_positive by blast
  qed
  then show ?thesis using r by blast
qed

section \<open>The column count of a connected component\<close>

text \<open>
  C3. The four events \<open>{id:1,start:1,end:6}\<close>, \<open>{id:2,start:4,end:6}\<close>,
  \<open>{id:3,start:3,end:5}\<close> and \<open>{id:4,start:1,end:3}\<close> form one connected
  component: the first collides with the three others. After \<open>layOutDay\<close> the first
  and the last have \<open>columns = 2\<close>, the second and the third \<open>columns = 3\<close>: the
  step of the last event writes its own count into the first event.
\<close>

theorem component_columns_differ:
  "\<exists>h'. layOutDay scenario_component SameArray [0, 1, 2, 3] h = Inr ([0, 1, 2, 3], h') \<and>
     collisions (h' 0) = [1, 2, 3] \<and> collisions (h' 1) = [0, 2] \<and>
     collisions (h' 2) = [0, 1] \<and> collisions (h' 3) = [0] \<and>
     columns (h' 0) = 2 \<and> columns (h' 1) = 3 \<and> columns (h' 2) = 3 \<and> columns (h' 3) = 2"
  by (simp add: run_defs scenario_component_def)

text \<open>
  With five events the boxes of two colliding events overlap on the canvas: the first
  event spans 10 to 310 horizontally and ends at 100, the second starts at 95 and spans
  210 to 410.
\<close>

lemma component_boxes_overlap:
  "\<exists>h'. layOutDay scenario_boxes SameArray [0, 1, 2, 3, 4] h = Inr ([0, 1, 2, 3, 4], h') \<and>
     collisions (h' 0) = [1] \<and> columns (h' 0) = 3 \<and> columns (h' 1) = 5 \<and>
     left (h' 0) = 10 \<and> width (h' 0) = 300 \<and> left (h' 1) = 210 \<and> width (h' 1) = 200"
  by (simp add: run_defs scenario_boxes_def)

end
